theory Spec2Isabelle
  imports
    Main
    "HOL-Library.AList"
    "HOL-Library.Char_ord"
    "HOL-Library.List_Lexorder"
    "HOL-Library.Multiset"
begin

section \<open>Data model of crdt.js\<close>

text \<open>
  A clock object of the source (\<^verbatim>\<open>{ [siteId]: 0 }\<close>) is a JavaScript object used as a
  dictionary from site ids to counters. It is modelled as an association list in insertion
  order, which is the order \<^verbatim>\<open>Object.keys\<close> and \<^verbatim>\<open>for ... in\<close> enumerate. Counters start
  at 0 and only grow by \<^verbatim>\<open>+ 1\<close> and \<^verbatim>\<open>Math.max\<close>, so they are natural numbers. Site
  ids are strings; the source generates them from lowercase letters, digits and \<^verbatim>\<open>-\<close>.
\<close>

type_synonym clock = "(string \<times> nat) list"

text \<open>\<^verbatim>\<open>clock[site] || 0\<close>: a missing key (and a stored 0) reads as 0.\<close>

definition clock_get :: "clock \<Rightarrow> string \<Rightarrow> nat" where
  "clock_get c site = (case map_of c site of None \<Rightarrow> 0 | Some v \<Rightarrow> v)"

text \<open>\<^verbatim>\<open>Object.keys(clock)\<close>.\<close>

definition Object_keys :: "clock \<Rightarrow> string list" where
  "Object_keys c = map fst c"

text \<open>
  A JavaScript \<^verbatim>\<open>Set\<close> keeps its members in insertion order; \<^verbatim>\<open>add\<close> of a member already
  present changes nothing. \<^verbatim>\<open>new Set(xs)\<close> adds the elements of \<^verbatim>\<open>xs\<close> from left to right.
\<close>

definition Set_add :: "'a \<Rightarrow> 'a list \<Rightarrow> 'a list" where
  "Set_add x s = (if x \<in> set s then s else s @ [x])"

definition Set_new :: "'a list \<Rightarrow> 'a list" where
  "Set_new xs = fold Set_add xs []"

record VectorClock =
  vc_siteId :: string
  vc_clock :: clock

text \<open>\<^verbatim>\<open>constructor(siteId)\<close>.\<close>

definition VectorClock_new :: "string \<Rightarrow> VectorClock" where
  "VectorClock_new siteId = \<lparr>vc_siteId = siteId, vc_clock = [(siteId, 0)]\<rparr>"

text \<open>\<^verbatim>\<open>increment()\<close>: returns the updated clock and the new value of the own component.\<close>

definition increment :: "VectorClock \<Rightarrow> VectorClock \<times> nat" where
  "increment this =
     (let n = clock_get (vc_clock this) (vc_siteId this) + 1
      in (this\<lparr>vc_clock := AList.update (vc_siteId this) n (vc_clock this)\<rparr>, n))"

text \<open>\<^verbatim>\<open>update(otherClock)\<close>: componentwise maximum over the keys of \<^verbatim>\<open>otherClock\<close>.\<close>

definition update_site :: "clock \<Rightarrow> string \<Rightarrow> clock \<Rightarrow> clock" where
  "update_site otherClock site c =
     AList.update site (max (clock_get c site) (clock_get otherClock site)) c"

definition update :: "VectorClock \<Rightarrow> clock \<Rightarrow> VectorClock" where
  "update this otherClock =
     this\<lparr>vc_clock := fold (update_site otherClock) (Object_keys otherClock) (vc_clock this)\<rparr>"

text \<open>
  \<^verbatim>\<open>compareTo(otherClock)\<close>: the loop carries the two flags \<^verbatim>\<open>isLess\<close> and \<^verbatim>\<open>isGreater\<close>.
  The result is \<^verbatim>\<open>-1\<close> (Before), \<^verbatim>\<open>1\<close> (After), \<^verbatim>\<open>0\<close> (Equal) or \<^verbatim>\<open>null\<close> (Concurrent),
  the last one modelled as \<open>None\<close>.
\<close>

definition compareTo_step :: "clock \<Rightarrow> clock \<Rightarrow> string \<Rightarrow> bool \<times> bool \<Rightarrow> bool \<times> bool" where
  "compareTo_step thisClock otherClock site flags =
     (let mine = clock_get thisClock site;
          theirs = clock_get otherClock site
      in (if mine < theirs then True else fst flags,
          if mine > theirs then True else snd flags))"

definition compareTo :: "VectorClock \<Rightarrow> clock \<Rightarrow> int option" where
  "compareTo this otherClock =
     (let allSites = Set_new (Object_keys (vc_clock this) @ Object_keys otherClock);
          flags = fold (compareTo_step (vc_clock this) otherClock) allSites (False, False);
          isLess = fst flags;
          isGreater = snd flags
      in if isLess \<and> \<not> isGreater then Some (- 1)
         else if isGreater \<and> \<not> isLess then Some 1
         else if \<not> isLess \<and> \<not> isGreater then Some 0
         else None)"

text \<open>\<^verbatim>\<open>getCopy()\<close>: a copy of the clock object; values are immutable here.\<close>

definition getCopy :: "VectorClock \<Rightarrow> clock" where
  "getCopy this = vc_clock this"


record CRDTCharacter =
  ch_value :: string
  ch_id :: string
  ch_siteId :: string
  ch_vectorClock :: clock
  visible :: bool

text \<open>\<^verbatim>\<open>new CRDTCharacter(value, id, siteId, vectorClock)\<close>: a new character is visible.\<close>

definition CRDTCharacter_new :: "string \<Rightarrow> string \<Rightarrow> string \<Rightarrow> clock \<Rightarrow> CRDTCharacter" where
  "CRDTCharacter_new v i s vc =
     \<lparr>ch_value = v, ch_id = i, ch_siteId = s, ch_vectorClock = vc, visible = True\<rparr>"

text \<open>
  The operation objects built by \<^verbatim>\<open>localInsert\<close> (\<^verbatim>\<open>type: 'insert'\<close>, with \<^verbatim>\<open>char\<close>) and by
  \<^verbatim>\<open>localDelete\<close> (\<^verbatim>\<open>type: 'delete'\<close>, with \<^verbatim>\<open>charId\<close>), which \<^verbatim>\<open>serializeOperation\<close> and
  \<^verbatim>\<open>deserializeOperation\<close> copy field by field.
\<close>

datatype operation =
    Insert (op_position: nat) (op_char: CRDTCharacter) (op_timestamp: nat) (op_vectorClock: clock)
  | Delete (op_position: nat) (op_charId: string) (op_timestamp: nat) (op_vectorClock: clock)

record CRDT =
  siteId :: string
  vectorClock :: VectorClock
  characters :: "CRDTCharacter list"
  counter :: nat
  operationHistory :: "operation list"

text \<open>\<^verbatim>\<open>new CRDT(siteId)\<close>.\<close>

definition CRDT_new :: "string \<Rightarrow> CRDT" where
  "CRDT_new s =
     \<lparr>siteId = s, vectorClock = VectorClock_new s, characters = [], counter = 0,
      operationHistory = []\<rparr>"

text \<open>The decimal digits of a number, as template strings print it.\<close>

function string_of_nat :: "nat \<Rightarrow> string" where
  "string_of_nat n =
     (if n < 10 then [''0123456789'' ! n]
      else string_of_nat (n div 10) @ [''0123456789'' ! (n mod 10)])"
  by pat_completeness auto
termination
  by (relation "measure (\<lambda>n. n)") auto

declare string_of_nat.simps [simp del]

text \<open>\<^verbatim>\<open>generateId()\<close>: the id string and the replica with its counter advanced.\<close>

definition generateId :: "CRDT \<Rightarrow> string \<times> CRDT" where
  "generateId this =
     (siteId this @ ''-'' @ string_of_nat (counter this), this\<lparr>counter := counter this + 1\<rparr>)"

text \<open>\<^verbatim>\<open>getText()\<close>.\<close>

definition getText :: "CRDT \<Rightarrow> string" where
  "getText this = concat (map ch_value (filter visible (characters this)))"

text \<open>
  \<^verbatim>\<open>getVisiblePosition(index)\<close>: the loop over \<^verbatim>\<open>i\<close> with its counter \<^verbatim>\<open>visibleCount\<close>; when
  the loop ends, \<^verbatim>\<open>i\<close> is \<^verbatim>\<open>this.characters.length\<close>.
\<close>

fun getVisiblePosition_loop :: "CRDTCharacter list \<Rightarrow> nat \<Rightarrow> nat \<Rightarrow> nat \<Rightarrow> nat" where
  "getVisiblePosition_loop [] i visibleCount index = i"
| "getVisiblePosition_loop (c # cs) i visibleCount index =
     (if visible c
      then (if visibleCount = index then i
            else getVisiblePosition_loop cs (i + 1) (visibleCount + 1) index)
      else getVisiblePosition_loop cs (i + 1) visibleCount index)"

definition getVisiblePosition :: "CRDT \<Rightarrow> nat \<Rightarrow> nat" where
  "getVisiblePosition this index = getVisiblePosition_loop (characters this) 0 0 index"

text \<open>\<^verbatim>\<open>array.splice(start, 0, item)\<close>; a start beyond the end appends.\<close>

definition array_splice :: "nat \<Rightarrow> 'a \<Rightarrow> 'a list \<Rightarrow> 'a list" where
  "array_splice start item xs = take start xs @ [item] @ drop start xs"

text \<open>
  \<^verbatim>\<open>localInsert(position, value)\<close>: returns the operation and the updated replica. The
  history keeps the operation as built; only its type, position and clock are read later.
\<close>

definition localInsert :: "CRDT \<Rightarrow> nat \<Rightarrow> string \<Rightarrow> CRDT \<times> operation" where
  "localInsert this position v =
     (let (vc, timestamp) = increment (vectorClock this);
          this1 = this\<lparr>vectorClock := vc\<rparr>;
          (i, this2) = generateId this1;
          char = CRDTCharacter_new v i (siteId this2) (getCopy (vectorClock this2));
          actualPosition = getVisiblePosition this2 position;
          this3 = this2\<lparr>characters := array_splice actualPosition char (characters this2)\<rparr>;
          operation = Insert actualPosition char timestamp (getCopy (vectorClock this3))
      in (this3\<lparr>operationHistory := operationHistory this3 @ [operation]\<rparr>, operation))"

text \<open>
  \<^verbatim>\<open>localDelete(position)\<close>: \<open>None\<close> is the \<^verbatim>\<open>null\<close> the source returns when nothing is
  deleted. An index is never negative, so only the upper bound of the range check remains.
\<close>

definition localDelete :: "CRDT \<Rightarrow> nat \<Rightarrow> CRDT \<times> operation option" where
  "localDelete this position =
     (let (vc, timestamp) = increment (vectorClock this);
          this1 = this\<lparr>vectorClock := vc\<rparr>;
          actualPosition = getVisiblePosition this1 position
      in if actualPosition \<ge> length (characters this1) then (this1, None)
         else
           (let char = characters this1 ! actualPosition
            in if visible char
               then
                 (let this2 = this1\<lparr>characters :=
                        (characters this1)[actualPosition := char\<lparr>visible := False\<rparr>]\<rparr>;
                      operation = Delete actualPosition (ch_id char) timestamp
                        (getCopy (vectorClock this2))
                  in (this2\<lparr>operationHistory := operationHistory this2 @ [operation]\<rparr>,
                      Some operation))
               else (this1, None)))"

text \<open>
  \<^verbatim>\<open>a.localeCompare(b)\<close>, as the sign of the comparison of the two strings character by
  character. On the ids this program builds (lowercase letters, digits and \<^verbatim>\<open>-\<close>) that is
  the order the default collation gives.
\<close>

definition localeCompare :: "string \<Rightarrow> string \<Rightarrow> int" where
  "localeCompare a b = (if a < b then - 1 else if a = b then 0 else 1)"

text \<open>
  \<^verbatim>\<open>compareCharacters(char1, char2)\<close>: the loop over the sorted site keys returns at the
  first difference (\<open>Some\<close> of \<^verbatim>\<open>v1 - v2\<close>); \<open>None\<close> means that it ran to its end.
\<close>

fun compareCharacters_loop :: "string list \<Rightarrow> clock \<Rightarrow> clock \<Rightarrow> int option" where
  "compareCharacters_loop [] c1 c2 = None"
| "compareCharacters_loop (site # sites) c1 c2 =
     (let v1 = clock_get c1 site;
          v2 = clock_get c2 site
      in if v1 \<noteq> v2 then Some (int v1 - int v2)
         else compareCharacters_loop sites c1 c2)"

definition compareCharacters :: "CRDTCharacter \<Rightarrow> CRDTCharacter \<Rightarrow> int" where
  "compareCharacters char1 char2 =
     (let allSites = Set_new (Object_keys (ch_vectorClock char1) @
                              Object_keys (ch_vectorClock char2))
      in case compareCharacters_loop (sort allSites) (ch_vectorClock char1)
                (ch_vectorClock char2) of
           Some d \<Rightarrow> d
         | None \<Rightarrow>
             if ch_siteId char1 \<noteq> ch_siteId char2
             then localeCompare (ch_siteId char1) (ch_siteId char2)
             else localeCompare (ch_id char1) (ch_id char2))"

text \<open>
  \<^verbatim>\<open>remoteInsert(operation)\<close>, for an operation of type \<^verbatim>\<open>'insert'\<close>. The loop stops at the
  first character that does not compare below the new one.
\<close>

fun remoteInsert_loop :: "CRDTCharacter list \<Rightarrow> CRDTCharacter \<Rightarrow> nat \<Rightarrow> nat \<Rightarrow> nat" where
  "remoteInsert_loop [] char i insertIndex = insertIndex"
| "remoteInsert_loop (c # cs) char i insertIndex =
     (if compareCharacters c char < 0 then remoteInsert_loop cs char (i + 1) (i + 1)
      else insertIndex)"

fun remoteInsert :: "CRDT \<Rightarrow> operation \<Rightarrow> CRDT" where
  "remoteInsert this (Insert position char timestamp vc) =
     (let this1 = this\<lparr>vectorClock := update (vectorClock this) vc\<rparr>;
          insertIndex = remoteInsert_loop (characters this1) char 0 0;
          exists = list_ex (\<lambda>c. ch_id c = ch_id char) (characters this1)
      in if \<not> exists then this1\<lparr>characters := array_splice insertIndex char (characters this1)\<rparr>
         else this1)"

text \<open>
  \<^verbatim>\<open>findIndex\<close>: the index of the first element that satisfies the test, \<open>None\<close> for
  the source's \<^verbatim>\<open>-1\<close>.
\<close>

fun findIndex :: "('a \<Rightarrow> bool) \<Rightarrow> 'a list \<Rightarrow> nat option" where
  "findIndex P [] = None"
| "findIndex P (x # xs) =
     (if P x then Some 0 else (case findIndex P xs of None \<Rightarrow> None | Some i \<Rightarrow> Some (i + 1)))"

text \<open>\<^verbatim>\<open>remoteDelete(operation)\<close>, for an operation of type \<^verbatim>\<open>'delete'\<close>.\<close>

fun remoteDelete :: "CRDT \<Rightarrow> operation \<Rightarrow> CRDT" where
  "remoteDelete this (Delete position charId timestamp vc) =
     (let this1 = this\<lparr>vectorClock := update (vectorClock this) vc\<rparr>
      in case findIndex (\<lambda>c. ch_id c = charId) (characters this1) of
           Some charIndex \<Rightarrow>
             this1\<lparr>characters := (characters this1)
               [charIndex := (characters this1 ! charIndex)\<lparr>visible := False\<rparr>]\<rparr>
         | None \<Rightarrow> this1)"

text \<open>
  \<^verbatim>\<open>garbageCollect(keepRecent)\<close>. \<^verbatim>\<open>slice(-keepRecent)\<close> keeps the last \<^verbatim>\<open>keepRecent\<close>
  elements, and the whole array when \<^verbatim>\<open>keepRecent\<close> is 0 (\<^verbatim>\<open>slice(-0)\<close> is \<^verbatim>\<open>slice(0)\<close>).
\<close>

definition slice_last :: "nat \<Rightarrow> 'a list \<Rightarrow> 'a list" where
  "slice_last k xs = (if k = 0 then xs else drop (length xs - k) xs)"

definition garbageCollect :: "CRDT \<Rightarrow> nat \<Rightarrow> CRDT" where
  "garbageCollect this keepRecent =
     (let visibleChars = filter visible (characters this);
          recentTombstones = slice_last keepRecent (filter (\<lambda>c. \<not> visible c) (characters this))
      in this\<lparr>characters := visibleChars @ recentTombstones\<rparr>)"

section \<open>Data model of sync-engine.js\<close>

text \<open>
  A message carries \<^verbatim>\<open>type\<close>, \<^verbatim>\<open>siteId\<close> and, for \<^verbatim>\<open>type: 'operation'\<close>, \<^verbatim>\<open>messageId\<close> and
  \<^verbatim>\<open>operation\<close>. The messages built by \<^verbatim>\<open>sendAck\<close> have an \<^verbatim>\<open>ackId\<close> and no \<^verbatim>\<open>messageId\<close>
  field, so the id is optional (\<open>None\<close> for \<^verbatim>\<open>undefined\<close>).
\<close>

datatype payload = OperationMsg operation | AckMsg "string option" | OtherMsg

record message =
  msg_siteId :: string
  msg_messageId :: "string option"
  msg_targetId :: string
  msg_payload :: payload

text \<open>
  The state of a \<^verbatim>\<open>SyncEngine\<close> that \<^verbatim>\<open>handleMessage\<close> and \<^verbatim>\<open>transformCursorPosition\<close> read
  or write: the replica, the set \<^verbatim>\<open>receivedOperations\<close> (in insertion order) and the keys of
  the map \<^verbatim>\<open>pendingAcks\<close>. Its effects on the outside are recorded in two logs: the calls of
  the callback \<^verbatim>\<open>onRemoteOperation\<close>, which the application installs, and the messages
  handed to \<^verbatim>\<open>broadcastMessage\<close>.
\<close>

record SyncEngine =
  crdt :: CRDT
  receivedOperations :: "string option list"
  pendingAcks :: "string option list"
  onRemoteOperation_calls :: "operation list"
  broadcast :: "message list"

definition SyncEngine_new :: "CRDT \<Rightarrow> SyncEngine" where
  "SyncEngine_new c =
     \<lparr>crdt = c, receivedOperations = [], pendingAcks = [], onRemoteOperation_calls = [],
      broadcast = []\<rparr>"

text \<open>\<^verbatim>\<open>sendAck(messageId, targetSiteId)\<close>.\<close>

definition sendAck :: "SyncEngine \<Rightarrow> string option \<Rightarrow> string \<Rightarrow> SyncEngine" where
  "sendAck this messageId targetSiteId =
     (let ackMessage = \<lparr>msg_siteId = siteId (crdt this), msg_messageId = None,
                         msg_targetId = targetSiteId, msg_payload = AckMsg messageId\<rparr>
      in this\<lparr>broadcast := broadcast this @ [ackMessage]\<rparr>)"

text \<open>The dispatch on \<^verbatim>\<open>operation.type\<close> in \<^verbatim>\<open>handleMessage\<close>.\<close>

fun applyOperation :: "CRDT \<Rightarrow> operation \<Rightarrow> CRDT" where
  "applyOperation c (Insert position char timestamp vc) =
     remoteInsert c (Insert position char timestamp vc)"
| "applyOperation c (Delete position charId timestamp vc) =
     remoteDelete c (Delete position charId timestamp vc)"

text \<open>
  The clean-up of \<^verbatim>\<open>receivedOperations\<close>: beyond 1000 members, the first 500 in insertion
  order are deleted.
\<close>

definition cleanupReceived :: "string option list \<Rightarrow> string option list" where
  "cleanupReceived received =
     (if length received > 1000
      then (let toDelete = take 500 received
            in filter (\<lambda>i. i \<notin> set toDelete) received)
      else received)"

text \<open>\<^verbatim>\<open>handleMessage(message)\<close>.\<close>

definition handleMessage :: "SyncEngine \<Rightarrow> message \<Rightarrow> SyncEngine" where
  "handleMessage this message =
     (if msg_siteId message = siteId (crdt this) then this
      else if msg_messageId message \<in> set (receivedOperations this) then this
      else
        (let this1 = this\<lparr>receivedOperations :=
               cleanupReceived (Set_add (msg_messageId message) (receivedOperations this))\<rparr>
         in case msg_payload message of
              OperationMsg operation \<Rightarrow>
                (let comparison = compareTo (vectorClock (crdt this1)) (op_vectorClock operation)
                 in if comparison = None \<or> comparison = Some (- 1)
                    then
                      (let this2 = this1\<lparr>crdt := applyOperation (crdt this1) operation\<rparr>;
                           this3 = this2\<lparr>onRemoteOperation_calls :=
                             onRemoteOperation_calls this2 @ [operation]\<rparr>
                       in sendAck this3 (msg_messageId message) (msg_siteId message))
                    else this1)
            | AckMsg ackId \<Rightarrow> this1\<lparr>pendingAcks := removeAll ackId (pendingAcks this1)\<rparr>
            | OtherMsg \<Rightarrow> this1))"

text \<open>
  \<^verbatim>\<open>Object.assign(target, source)\<close> on clock objects: \<^verbatim>\<open>target[key] = source[key]\<close> for
  every key of \<^verbatim>\<open>source\<close>.
\<close>

definition Object_assign :: "clock \<Rightarrow> clock \<Rightarrow> clock" where
  "Object_assign target source =
     fold (\<lambda>key t. AList.update key (clock_get source key) t) (Object_keys source) target"

text \<open>
  \<^verbatim>\<open>transformCursorPosition(position, remoteVectorClock)\<close>: one round of the loop over the
  history, then the loop and the final \<^verbatim>\<open>Math.max(0, transformed)\<close>. The variable
  \<^verbatim>\<open>transformed\<close> is an integer, since the loop decrements it.
\<close>

definition transformCursor_step :: "string \<Rightarrow> clock \<Rightarrow> operation \<Rightarrow> int \<Rightarrow> int" where
  "transformCursor_step site remoteVectorClock op transformed =
     (let comparison0 = VectorClock_new site;
          comparison = comparison0\<lparr>vc_clock :=
            Object_assign (vc_clock comparison0) (op_vectorClock op)\<rparr>;
          relation = compareTo comparison remoteVectorClock
      in if relation = Some 1
         then (case op of
                 Insert p c t vc \<Rightarrow> if int p \<le> transformed then transformed + 1 else transformed
               | Delete p i t vc \<Rightarrow> if int p < transformed then transformed - 1 else transformed)
         else transformed)"

definition transformCursorPosition :: "SyncEngine \<Rightarrow> int \<Rightarrow> clock \<Rightarrow> int" where
  "transformCursorPosition this position remoteVectorClock =
     max 0 (fold (transformCursor_step (siteId (crdt this)) remoteVectorClock)
              (operationHistory (crdt this)) position)"

section \<open>The order of section 4.1 on clocks\<close>

text \<open>
  Two predicates used to describe what \<^verbatim>\<open>compareCharacters\<close> computes: two clocks agree in
  every component; and the first is below the second at the least site (in the order of the
  site ids) where they differ. Missing keys read as 0.
\<close>

definition clock_eq :: "clock \<Rightarrow> clock \<Rightarrow> bool" where
  "clock_eq a b = (\<forall>s. clock_get a s = clock_get b s)"

definition clock_less :: "clock \<Rightarrow> clock \<Rightarrow> bool" where
  "clock_less a b =
     (\<exists>k. clock_get a k < clock_get b k \<and> (\<forall>j. j < k \<longrightarrow> clock_get a j = clock_get b j))"

section \<open>The sortedness invariant\<close>

text \<open>
  The Document's sequence is sorted when every record compares below every later one
  under \<^verbatim>\<open>compareCharacters\<close>.
\<close>

definition isSorted :: "CRDTCharacter list \<Rightarrow> bool" where
  "isSorted cs = sorted_wrt (\<lambda>c1 c2. compareCharacters c1 c2 < 0) cs"

section \<open>An exchange between two replicas\<close>

text \<open>
  Replica \<^verbatim>\<open>a\<close> types \<^verbatim>\<open>x\<close> and then \<^verbatim>\<open>y\<close> behind it; it may then delete the \<^verbatim>\<open>x\<close>. These
  are the operations it hands to the sync engine, and the messages that carry them.
\<close>

definition replica_a1 :: CRDT where
  "replica_a1 = fst (localInsert (CRDT_new ''a'') 0 ''x'')"

definition insert_x :: operation where
  "insert_x = snd (localInsert (CRDT_new ''a'') 0 ''x'')"

definition replica_a2 :: CRDT where
  "replica_a2 = fst (localInsert replica_a1 1 ''y'')"

definition insert_y :: operation where
  "insert_y = snd (localInsert replica_a1 1 ''y'')"

definition replica_a3 :: CRDT where
  "replica_a3 = fst (localDelete replica_a2 0)"

definition delete_x :: operation where
  "delete_x = Delete 0 ''a-0'' 3 [(''a'', 3)]"

definition message_x :: message where
  "message_x = \<lparr>msg_siteId = ''a'', msg_messageId = Some ''a-1-0.1'',
                 msg_targetId = ''broadcast'', msg_payload = OperationMsg insert_x\<rparr>"

definition message_y :: message where
  "message_y = \<lparr>msg_siteId = ''a'', msg_messageId = Some ''a-2-0.2'',
                 msg_targetId = ''broadcast'', msg_payload = OperationMsg insert_y\<rparr>"

text \<open>Replica \<^verbatim>\<open>b\<close> after it has received the second of the two inserts first.\<close>

definition engine_b :: SyncEngine where
  "engine_b = handleMessage (SyncEngine_new (CRDT_new ''b'')) message_y"

section \<open>Replaying a set of operations\<close>

text \<open>
  A replica applies a list of remote operations one after the other, each through the
  dispatch of \<^verbatim>\<open>handleMessage\<close>.
\<close>

definition applyOperations :: "CRDT \<Rightarrow> operation list \<Rightarrow> CRDT" where
  "applyOperations c ops = foldl applyOperation c ops"

text \<open>\<^verbatim>\<open>operation.type === 'insert'\<close>.\<close>

fun isInsert :: "operation \<Rightarrow> bool" where
  "isInsert (Insert p ch t vc) = True"
| "isInsert (Delete p i t vc) = False"

text \<open>
  The records and record ids that the Insert operations of a list carry, and the target
  ids of its Delete operations.
\<close>

definition insertedChars :: "operation list \<Rightarrow> CRDTCharacter list" where
  "insertedChars ops = map op_char (filter isInsert ops)"

definition insertedIds :: "operation list \<Rightarrow> string list" where
  "insertedIds ops = map ch_id (insertedChars ops)"

definition deletedIds :: "operation list \<Rightarrow> string list" where
  "deletedIds ops = map op_charId (filter (\<lambda>op. \<not> isInsert op) ops)"

text \<open>
  An ordering in which every Delete whose target is inserted by some operation of the set
  (the ids \<open>allIds\<close>) comes after that Insert; \<open>seen\<close> holds the ids inserted so far.
\<close>

fun deletesFollowInserts :: "string list \<Rightarrow> string list \<Rightarrow> operation list \<Rightarrow> bool" where
  "deletesFollowInserts allIds seen [] = True"
| "deletesFollowInserts allIds seen (Insert p ch t vc # ops) =
     deletesFollowInserts allIds (ch_id ch # seen) ops"
| "deletesFollowInserts allIds seen (Delete p i t vc # ops) =
     ((i \<in> set seen \<or> i \<notin> set allIds) \<and> deletesFollowInserts allIds seen ops)"

text \<open>A record as it ends up once the Deletes with the given target ids have reached it.\<close>

definition markDeleted :: "string set \<Rightarrow> CRDTCharacter \<Rightarrow> CRDTCharacter" where
  "markDeleted D ch = (if ch_id ch \<in> D then ch\<lparr>visible := False\<rparr> else ch)"

section \<open>Runs of one replica\<close>






section \<open>Vector clock comparison\<close>

lemma set_Set_add: "set (Set_add x s) = insert x (set s)"
  by (auto simp: Set_add_def)

lemma set_fold_Set_add: "set (fold Set_add xs acc) = set xs \<union> set acc"
  by (induction xs arbitrary: acc) (auto simp: set_Set_add)

lemma set_Set_new: "set (Set_new xs) = set xs"
  by (simp add: Set_new_def set_fold_Set_add)

lemma clock_get_notin: "site \<notin> set (Object_keys c) \<Longrightarrow> clock_get c site = 0"
  by (auto simp: clock_get_def Object_keys_def map_of_eq_None_iff [symmetric]
      simp del: map_of_eq_None_iff split: option.splits)

lemma fold_compareTo_step:
  "fold (compareTo_step a b) sites flags =
     (fst flags \<or> (\<exists>s \<in> set sites. clock_get a s < clock_get b s),
      snd flags \<or> (\<exists>s \<in> set sites. clock_get a s > clock_get b s))"
  by (induction sites arbitrary: flags) (auto simp: compareTo_step_def Let_def)

lemma ex_less_all_sites:
  "(\<exists>s \<in> set (Object_keys a) \<union> set (Object_keys b). clock_get a s < clock_get b s)
     \<longleftrightarrow> (\<exists>s. clock_get a s < clock_get b s)"
proof
  assume "\<exists>s. clock_get a s < clock_get b s"
  then obtain s where s: "clock_get a s < clock_get b s" ..
  then have "clock_get b s \<noteq> 0" by simp
  then have "s \<in> set (Object_keys b)" by (rule contrapos_np) (simp add: clock_get_notin)
  with s show "\<exists>s \<in> set (Object_keys a) \<union> set (Object_keys b). clock_get a s < clock_get b s"
    by blast
qed blast

lemma ex_greater_all_sites:
  "(\<exists>s \<in> set (Object_keys a) \<union> set (Object_keys b). clock_get b s < clock_get a s)
     \<longleftrightarrow> (\<exists>s. clock_get b s < clock_get a s)"
  using ex_less_all_sites [of b a] by (simp add: Un_commute)

lemma compareTo_flags:
  "compareTo this b =
     (let isLess = (\<exists>s. clock_get (vc_clock this) s < clock_get b s);
          isGreater = (\<exists>s. clock_get b s < clock_get (vc_clock this) s)
      in if isLess \<and> \<not> isGreater then Some (- 1)
         else if isGreater \<and> \<not> isLess then Some 1
         else if \<not> isLess \<and> \<not> isGreater then Some 0
         else None)"
  unfolding compareTo_def Let_def fold_compareTo_step set_Set_new set_append fst_conv snd_conv
    ex_less_all_sites ex_greater_all_sites
  by simp

text \<open>
  Claim C10. \<^verbatim>\<open>compareTo\<close> is a sound causality comparator: with missing keys read as 0,
  it returns 0 exactly when the two clocks agree in every component, -1 exactly when the
  first is componentwise below the second and differs from it, 1 exactly when the second is
  componentwise below the first and differs from it, and null exactly when each clock has a
  component strictly above the other's; and \<^verbatim>\<open>a.compareTo(b)\<close> is -1 exactly when
  \<^verbatim>\<open>b.compareTo(a)\<close> is 1.
\<close>

theorem compareTo_sound:
  "(compareTo a (vc_clock b) = Some 0 \<longleftrightarrow>
      (\<forall>s. clock_get (vc_clock a) s = clock_get (vc_clock b) s)) \<and>
   (compareTo a (vc_clock b) = Some (- 1) \<longleftrightarrow>
      (\<forall>s. clock_get (vc_clock a) s \<le> clock_get (vc_clock b) s) \<and>
      (\<exists>s. clock_get (vc_clock a) s \<noteq> clock_get (vc_clock b) s)) \<and>
   (compareTo a (vc_clock b) = Some 1 \<longleftrightarrow>
      (\<forall>s. clock_get (vc_clock b) s \<le> clock_get (vc_clock a) s) \<and>
      (\<exists>s. clock_get (vc_clock a) s \<noteq> clock_get (vc_clock b) s)) \<and>
   (compareTo a (vc_clock b) = None \<longleftrightarrow>
      (\<exists>s. clock_get (vc_clock b) s < clock_get (vc_clock a) s) \<and>
      (\<exists>s. clock_get (vc_clock a) s < clock_get (vc_clock b) s)) \<and>
   (compareTo a (vc_clock b) = Some (- 1) \<longleftrightarrow> compareTo b (vc_clock a) = Some 1)"
proof -
  let ?L = "\<exists>s. clock_get (vc_clock a) s < clock_get (vc_clock b) s"
  let ?G = "\<exists>s. clock_get (vc_clock b) s < clock_get (vc_clock a) s"
  have nL: "\<not> ?L \<longleftrightarrow> (\<forall>s. clock_get (vc_clock b) s \<le> clock_get (vc_clock a) s)"
    by (simp add: not_less)
  have nG: "\<not> ?G \<longleftrightarrow> (\<forall>s. clock_get (vc_clock a) s \<le> clock_get (vc_clock b) s)"
    by (simp add: not_less)
  have ne: "(\<exists>s. clock_get (vc_clock a) s \<noteq> clock_get (vc_clock b) s) \<longleftrightarrow> ?L \<or> ?G"
    by (metis linorder_neqE_nat less_not_refl)
  have eq: "(\<forall>s. clock_get (vc_clock a) s = clock_get (vc_clock b) s) \<longleftrightarrow> \<not> ?L \<and> \<not> ?G"
    using ne by blast
  have ab: "compareTo a (vc_clock b) =
      (if ?L \<and> \<not> ?G then Some (- 1) else if ?G \<and> \<not> ?L then Some 1
       else if \<not> ?L \<and> \<not> ?G then Some 0 else None)"
    by (simp add: compareTo_flags Let_def)
  have ba: "compareTo b (vc_clock a) =
      (if ?G \<and> \<not> ?L then Some (- 1) else if ?L \<and> \<not> ?G then Some 1
       else if \<not> ?G \<and> \<not> ?L then Some 0 else None)"
    by (simp add: compareTo_flags Let_def)
  show ?thesis
    unfolding ab ba eq ne nL [symmetric] nG [symmetric]
    by (cases ?L; cases ?G) simp_all
qed

theorem compareTo_sound_witness:
  "compareTo \<lparr>vc_siteId = ''a'', vc_clock = [(''a'', 1)]\<rparr>
     (vc_clock \<lparr>vc_siteId = ''b'', vc_clock = [(''a'', 2), (''b'', 1)]\<rparr>) = Some (- 1) \<and>
   compareTo \<lparr>vc_siteId = ''b'', vc_clock = [(''a'', 2), (''b'', 1)]\<rparr>
     (vc_clock \<lparr>vc_siteId = ''a'', vc_clock = [(''a'', 1)]\<rparr>) = Some 1"
proof -
  have before: "compareTo \<lparr>vc_siteId = ''a'', vc_clock = [(''a'', 1)]\<rparr>
     (vc_clock \<lparr>vc_siteId = ''b'', vc_clock = [(''a'', 2), (''b'', 1)]\<rparr>) = Some (- 1)"
    by code_simp
  show ?thesis
    using before
      compareTo_sound [THEN conjunct2, THEN conjunct2, THEN conjunct2, THEN conjunct2,
        of "\<lparr>vc_siteId = ''a'', vc_clock = [(''a'', 1)]\<rparr>"
           "\<lparr>vc_siteId = ''b'', vc_clock = [(''a'', 2), (''b'', 1)]\<rparr>"]
    by blast
qed

section \<open>What compareCharacters computes\<close>

lemma loop_None_iff:
  "\<forall>s. s \<notin> set sites \<longrightarrow> clock_get a s = clock_get b s \<Longrightarrow>
   compareCharacters_loop sites a b = None \<longleftrightarrow> clock_eq a b"
proof (induction sites)
  case Nil
  then show ?case by (simp add: clock_eq_def)
next
  case (Cons site sites)
  show ?case
  proof (cases "clock_get a site = clock_get b site")
    case True
    with Cons.prems have "\<forall>s. s \<notin> set sites \<longrightarrow> clock_get a s = clock_get b s"
      by auto
    from Cons.IH [OF this] True show ?thesis by (simp add: Let_def)
  next
    case False
    then show ?thesis by (auto simp: Let_def clock_eq_def)
  qed
qed

lemma loop_Some_first:
  "sorted sites \<Longrightarrow> \<forall>s. s \<notin> set sites \<longrightarrow> clock_get a s = clock_get b s \<Longrightarrow>
   compareCharacters_loop sites a b = Some d \<Longrightarrow>
   \<exists>k. d = int (clock_get a k) - int (clock_get b k) \<and> clock_get a k \<noteq> clock_get b k \<and>
       (\<forall>j. j < k \<longrightarrow> clock_get a j = clock_get b j)"
proof (induction sites)
  case Nil
  then show ?case by simp
next
  case (Cons site sites)
  show ?case
  proof (cases "clock_get a site = clock_get b site")
    case True
    with Cons.prems have out: "\<forall>s. s \<notin> set sites \<longrightarrow> clock_get a s = clock_get b s"
      by auto
    from Cons.prems True have "compareCharacters_loop sites a b = Some d"
      by (simp add: Let_def)
    with Cons.IH out Cons.prems(1) show ?thesis by simp
  next
    case False
    with Cons.prems have d: "d = int (clock_get a site) - int (clock_get b site)"
      by (simp add: Let_def)
    have "\<forall>j. j < site \<longrightarrow> clock_get a j = clock_get b j"
    proof (intro allI impI)
      fix j assume "j < site"
      with Cons.prems(1) have "j \<notin> set (site # sites)" by auto
      with Cons.prems(2) show "clock_get a j = clock_get b j" by blast
    qed
    with d False show ?thesis by blast
  qed
qed

lemma first_diff_unique:
  assumes "clock_get a k \<noteq> clock_get b k" "\<forall>j. j < k \<longrightarrow> clock_get a j = clock_get b j"
    and "clock_get a k' \<noteq> clock_get b k'" "\<forall>j. j < k' \<longrightarrow> clock_get a j = clock_get b j"
  shows "k = k'"
proof (cases k k' rule: linorder_cases)
  case less
  with assms(1,4) show ?thesis by simp
next
  case greater
  with assms(2,3) show ?thesis by simp
qed simp

lemma allSites_outside:
  "s \<notin> set (sort (Set_new (Object_keys a @ Object_keys b))) \<Longrightarrow> clock_get a s = clock_get b s"
  by (simp add: set_Set_new clock_get_notin)

lemma compareCharacters_neg_iff:
  "compareCharacters x y < 0 \<longleftrightarrow>
     clock_less (ch_vectorClock x) (ch_vectorClock y) \<or>
     clock_eq (ch_vectorClock x) (ch_vectorClock y) \<and>
       (ch_siteId x < ch_siteId y \<or> ch_siteId x = ch_siteId y \<and> ch_id x < ch_id y)"
proof -
  let ?a = "ch_vectorClock x" and ?b = "ch_vectorClock y"
  let ?sites = "sort (Set_new (Object_keys ?a @ Object_keys ?b))"
  have out: "\<forall>s. s \<notin> set ?sites \<longrightarrow> clock_get ?a s = clock_get ?b s"
    using allSites_outside by blast
  show ?thesis
  proof (cases "compareCharacters_loop ?sites ?a ?b")
    case None
    with loop_None_iff [OF out] have eq: "clock_eq ?a ?b" by simp
    then have "\<not> clock_less ?a ?b" by (auto simp: clock_eq_def clock_less_def)
    with None eq show ?thesis
      by (auto simp: compareCharacters_def Let_def localeCompare_def)
  next
    case (Some d)
    from loop_Some_first [OF sorted_sort out Some] obtain k where
      k: "d = int (clock_get ?a k) - int (clock_get ?b k)" "clock_get ?a k \<noteq> clock_get ?b k"
         "\<forall>j. j < k \<longrightarrow> clock_get ?a j = clock_get ?b j" by blast
    have neq: "\<not> clock_eq ?a ?b" using k(2) by (auto simp: clock_eq_def)
    have "d < 0 \<longleftrightarrow> clock_less ?a ?b"
    proof
      assume "d < 0"
      with k show "clock_less ?a ?b" unfolding clock_less_def by (intro exI [of _ k]) simp
    next
      assume "clock_less ?a ?b"
      then obtain k' where k': "clock_get ?a k' < clock_get ?b k'"
        "\<forall>j. j < k' \<longrightarrow> clock_get ?a j = clock_get ?b j"
        unfolding clock_less_def by blast
      then have "k = k'" using first_diff_unique [of ?a k ?b k'] k by simp
      with k k' show "d < 0" by simp
    qed
    with Some neq show ?thesis by (simp add: compareCharacters_def Let_def)
  qed
qed


lemma clock_less_trans: "clock_less a b \<Longrightarrow> clock_less b c \<Longrightarrow> clock_less a c"
proof -
  assume "clock_less a b" "clock_less b c"
  then obtain k k' where k: "clock_get a k < clock_get b k" "\<forall>j. j < k \<longrightarrow> clock_get a j = clock_get b j"
    and k': "clock_get b k' < clock_get c k'" "\<forall>j. j < k' \<longrightarrow> clock_get b j = clock_get c j"
    unfolding clock_less_def by blast
  show ?thesis unfolding clock_less_def
  proof (intro exI [of _ "min k k'"] conjI allI impI)
    show "clock_get a (min k k') < clock_get c (min k k')"
      using k k' by (cases k k' rule: linorder_cases) (auto simp: min_def)
  next
    fix j assume "j < min k k'"
    then show "clock_get a j = clock_get c j" using k k' by simp
  qed
qed

lemma clock_less_eq_trans: "clock_less a b \<Longrightarrow> clock_eq b c \<Longrightarrow> clock_less a c"
  by (auto simp: clock_less_def clock_eq_def)

lemma clock_eq_less_trans: "clock_eq a b \<Longrightarrow> clock_less b c \<Longrightarrow> clock_less a c"
  by (auto simp: clock_less_def clock_eq_def)

lemma clock_eq_trans: "clock_eq a b \<Longrightarrow> clock_eq b c \<Longrightarrow> clock_eq a c"
  by (auto simp: clock_eq_def)

lemma clock_eq_sym: "clock_eq a b \<Longrightarrow> clock_eq b a"
  by (auto simp: clock_eq_def)

lemma clock_less_irrefl: "clock_less a b \<Longrightarrow> \<not> clock_eq a b"
  unfolding clock_less_def clock_eq_def by (metis less_irrefl)

lemma clock_less_asym: "clock_less a b \<Longrightarrow> \<not> clock_less b a"
proof
  assume "clock_less a b" "clock_less b a"
  then obtain k k' where
    k: "clock_get a k < clock_get b k" "\<forall>j. j < k \<longrightarrow> clock_get a j = clock_get b j" and
    k': "clock_get b k' < clock_get a k'" "\<forall>j. j < k' \<longrightarrow> clock_get b j = clock_get a j"
    unfolding clock_less_def by blast
  show False
  proof (cases k k' rule: linorder_cases)
    case less
    with k(1) k'(2) show ?thesis by simp
  next
    case equal
    with k(1) k'(1) show ?thesis by simp
  next
    case greater
    with k(2) k'(1) show ?thesis by simp
  qed
qed

lemma clock_total: "clock_less a b \<or> clock_eq a b \<or> clock_less b a"
proof (cases "compareCharacters_loop (sort (Set_new (Object_keys a @ Object_keys b))) a b")
  case None
  with loop_None_iff [of "sort (Set_new (Object_keys a @ Object_keys b))" a b] allSites_outside
  show ?thesis by blast
next
  case (Some d)
  have out: "\<forall>s. s \<notin> set (sort (Set_new (Object_keys a @ Object_keys b))) \<longrightarrow> clock_get a s = clock_get b s"
    using allSites_outside by blast
  from loop_Some_first [OF sorted_sort out Some] obtain k where
     "clock_get a k \<noteq> clock_get b k" "\<forall>j. j < k \<longrightarrow> clock_get a j = clock_get b j" by blast
  then have "clock_less a b \<or> clock_less b a"
    unfolding clock_less_def
    by (cases "clock_get a k" "clock_get b k" rule: linorder_cases) (simp, blast, simp, metis)
  then show ?thesis by blast
qed

lemma compareCharacters_trans:
  "compareCharacters x y < 0 \<Longrightarrow> compareCharacters y z < 0 \<Longrightarrow> compareCharacters x z < 0"
proof -
  assume xy: "compareCharacters x y < 0" and yz: "compareCharacters y z < 0"
  let ?a = "ch_vectorClock x" and ?b = "ch_vectorClock y" and ?c = "ch_vectorClock z"
  from xy consider (l) "clock_less ?a ?b"
    | (e) "clock_eq ?a ?b" "ch_siteId x < ch_siteId y \<or> ch_siteId x = ch_siteId y \<and> ch_id x < ch_id y"
    unfolding compareCharacters_neg_iff by blast
  then show ?thesis
  proof cases
    case l
    from yz have "clock_less ?b ?c \<or> clock_eq ?b ?c"
      unfolding compareCharacters_neg_iff by blast
    with l have "clock_less ?a ?c" using clock_less_trans clock_less_eq_trans by blast
    then show ?thesis unfolding compareCharacters_neg_iff by blast
  next
    case e
    from yz consider (l') "clock_less ?b ?c"
      | (e') "clock_eq ?b ?c" "ch_siteId y < ch_siteId z \<or> ch_siteId y = ch_siteId z \<and> ch_id y < ch_id z"
      unfolding compareCharacters_neg_iff by blast
    then show ?thesis
    proof cases
      case l'
      with e(1) have "clock_less ?a ?c" using clock_eq_less_trans by blast
      then show ?thesis unfolding compareCharacters_neg_iff by blast
    next
      case e'
      from e(1) e'(1) have "clock_eq ?a ?c" by (rule clock_eq_trans)
      moreover from e(2) e'(2)
      have "ch_siteId x < ch_siteId z \<or> ch_siteId x = ch_siteId z \<and> ch_id x < ch_id z"
        by auto
      ultimately show ?thesis unfolding compareCharacters_neg_iff by blast
    qed
  qed
qed

lemma compareCharacters_asym:
  "compareCharacters x y < 0 \<Longrightarrow> \<not> compareCharacters y x < 0"
proof
  assume xy: "compareCharacters x y < 0" and yx: "compareCharacters y x < 0"
  let ?a = "ch_vectorClock x" and ?b = "ch_vectorClock y"
  from xy consider (l) "clock_less ?a ?b"
    | (e) "clock_eq ?a ?b" "ch_siteId x < ch_siteId y \<or> ch_siteId x = ch_siteId y \<and> ch_id x < ch_id y"
    unfolding compareCharacters_neg_iff by blast
  then show False
  proof cases
    case l
    then have "\<not> clock_less ?b ?a" "\<not> clock_eq ?b ?a"
      using clock_less_asym clock_less_irrefl clock_eq_sym by blast+
    with yx show False unfolding compareCharacters_neg_iff by blast
  next
    case e
    then have "\<not> clock_less ?b ?a" using clock_less_irrefl clock_eq_sym by blast
    with yx have "ch_siteId y < ch_siteId x \<or> ch_siteId y = ch_siteId x \<and> ch_id y < ch_id x"
      unfolding compareCharacters_neg_iff by blast
    with e(2) show False by auto
  qed
qed

lemma compareCharacters_total:
  "\<not> compareCharacters x y < 0 \<Longrightarrow> ch_id x \<noteq> ch_id y \<Longrightarrow> compareCharacters y x < 0"
proof -
  assume nxy: "\<not> compareCharacters x y < 0" and ne: "ch_id x \<noteq> ch_id y"
  let ?a = "ch_vectorClock x" and ?b = "ch_vectorClock y"
  from nxy have nl: "\<not> clock_less ?a ?b" unfolding compareCharacters_neg_iff by blast
  show ?thesis
  proof (cases "clock_less ?b ?a")
    case True
    then show ?thesis unfolding compareCharacters_neg_iff by blast
  next
    case False
    with nl clock_total [of ?a ?b] have eq: "clock_eq ?a ?b" by blast
    with nxy have n: "\<not> ch_siteId x < ch_siteId y"
      "\<not> (ch_siteId x = ch_siteId y \<and> ch_id x < ch_id y)"
      unfolding compareCharacters_neg_iff by blast+
    have "ch_siteId y < ch_siteId x \<or> ch_siteId y = ch_siteId x \<and> ch_id y < ch_id x"
    proof (cases "ch_siteId x = ch_siteId y")
      case True
      with n(2) ne show ?thesis by (simp add: not_less order_less_le)
    next
      case False
      with n(1) show ?thesis by (simp add: not_less order_less_le)
    qed
    with eq clock_eq_sym show ?thesis unfolding compareCharacters_neg_iff by blast
  qed
qed

section \<open>Local edits\<close>

lemma getVisiblePosition_loop_count:
  "visibleCount \<le> index \<Longrightarrow>
   i \<le> getVisiblePosition_loop cs i visibleCount index \<and>
   getVisiblePosition_loop cs i visibleCount index \<le> i + length cs \<and>
   length (filter visible (take (getVisiblePosition_loop cs i visibleCount index - i) cs)) =
     min (index - visibleCount) (length (filter visible cs))"
proof (induction cs arbitrary: i visibleCount)
  case Nil
  then show ?case by simp
next
  case (Cons c cs)
  show ?case
  proof (cases "visible c")
    case False
    let ?r = "getVisiblePosition_loop cs (i + 1) visibleCount index"
    from Cons.IH [OF Cons.prems, of "i + 1"] have
      ih: "i + 1 \<le> ?r" "?r \<le> i + 1 + length cs"
          "length (filter visible (take (?r - (i + 1)) cs)) =
             min (index - visibleCount) (length (filter visible cs))"
      by simp_all
    from ih(1) have "?r - i = Suc (?r - (i + 1))" by simp
    then have "take (?r - i) (c # cs) = c # take (?r - (i + 1)) cs"
      by simp
    with False ih show ?thesis by simp
  next
    case True
    show ?thesis
    proof (cases "visibleCount = index")
      case True
      with \<open>visible c\<close> show ?thesis by simp
    next
      case False
      with Cons.prems have lt: "visibleCount + 1 \<le> index" by simp
      let ?r = "getVisiblePosition_loop cs (i + 1) (visibleCount + 1) index"
      from Cons.IH [OF lt, of "i + 1"] have
        ih: "i + 1 \<le> ?r" "?r \<le> i + 1 + length cs"
            "length (filter visible (take (?r - (i + 1)) cs)) =
               min (index - (visibleCount + 1)) (length (filter visible cs))"
        by simp_all
      from ih(1) have "?r - i = Suc (?r - (i + 1))" by simp
      then have "take (?r - i) (c # cs) = c # take (?r - (i + 1)) cs"
        by simp
      with True False ih lt show ?thesis by simp
    qed
  qed
qed

lemma getVisiblePosition_count:
  "getVisiblePosition this index \<le> length (characters this) \<and>
   length (filter visible (take (getVisiblePosition this index) (characters this))) =
     min index (length (filter visible (characters this)))"
  using getVisiblePosition_loop_count [of 0 index 0 "characters this"]
  by (simp add: getVisiblePosition_def)

lemma localInsert_unfold:
  "localInsert this position v =
     (let vc = fst (increment (vectorClock this));
          char = CRDTCharacter_new v (siteId this @ ''-'' @ string_of_nat (counter this))
                   (siteId this) (vc_clock vc);
          actualPosition = getVisiblePosition this position;
          operation = Insert actualPosition char (snd (increment (vectorClock this)))
                        (vc_clock vc)
      in (this\<lparr>vectorClock := vc, counter := counter this + 1,
                characters := array_splice actualPosition char (characters this),
                operationHistory := operationHistory this @ [operation]\<rparr>, operation))"
  by (simp add: localInsert_def generateId_def getCopy_def Let_def getVisiblePosition_def
      split: prod.splits)

text \<open>
  Claim C9. For every document state, \<^verbatim>\<open>localInsert(position, value)\<close> puts a new visible
  record with the given value into the sequence, at the internal index the operation
  reports; the number of visible records in front of it, which is its visible index after
  the insertion, is \<^verbatim>\<open>position\<close> cut down to the number of visible records before the
  insertion, so a position beyond the visible text inserts at its end.
\<close>

theorem localInsert_visible_index:
  "characters (fst (localInsert this position v)) =
     take (op_position (snd (localInsert this position v))) (characters this) @
     op_char (snd (localInsert this position v)) #
     drop (op_position (snd (localInsert this position v))) (characters this) \<and>
   op_position (snd (localInsert this position v)) \<le> length (characters this) \<and>
   visible (op_char (snd (localInsert this position v))) \<and>
   ch_value (op_char (snd (localInsert this position v))) = v \<and>
   length (filter visible (take (op_position (snd (localInsert this position v)))
      (characters (fst (localInsert this position v))))) =
     min position (length (filter visible (characters this)))"
  using getVisiblePosition_count [of this position]
  by (simp add: localInsert_unfold Let_def array_splice_def CRDTCharacter_new_def)

theorem localInsert_visible_index_witness:
  "length (filter visible (take (op_position (snd (localInsert (CRDT_new ''a'') 7 ''x'')))
      (characters (fst (localInsert (CRDT_new ''a'') 7 ''x''))))) = 0"
  using localInsert_visible_index [of "CRDT_new ''a''" 7 "''x''"]
  by (simp add: CRDT_new_def)

text \<open>
  Claim C6, on the code. \<^verbatim>\<open>localDelete(0)\<close> on a fresh replica finds no character at the
  position: it returns \<^verbatim>\<open>null\<close> and leaves the sequence and the history as they were, but
  the replica's own clock component has gone from 0 to 1, since \<^verbatim>\<open>increment()\<close> runs before
  the range check.
\<close>

theorem localDelete_noop_increments_clock:
  "snd (localDelete (CRDT_new ''a'') 0) = None \<and>
   characters (fst (localDelete (CRDT_new ''a'') 0)) = characters (CRDT_new ''a'') \<and>
   operationHistory (fst (localDelete (CRDT_new ''a'') 0)) = operationHistory (CRDT_new ''a'') \<and>
   clock_get (vc_clock (vectorClock (CRDT_new ''a''))) ''a'' = 0 \<and>
   clock_get (vc_clock (vectorClock (fst (localDelete (CRDT_new ''a'') 0)))) ''a'' = 1"
  by (simp add: localDelete_def CRDT_new_def VectorClock_new_def increment_def
      getVisiblePosition_def clock_get_def Let_def)

section \<open>Remote operations\<close>

lemma compareCharacters_visible_left [simp]:
  "compareCharacters (x\<lparr>visible := b\<rparr>) y = compareCharacters x y"
  by (simp add: compareCharacters_def split: option.splits)

lemma compareCharacters_visible_right [simp]:
  "compareCharacters x (y\<lparr>visible := b\<rparr>) = compareCharacters x y"
  by (simp add: compareCharacters_def split: option.splits)

lemma remoteInsert_loop_takeWhile:
  "remoteInsert_loop cs ch i i = i + length (takeWhile (\<lambda>c. compareCharacters c ch < 0) cs)"
  by (induction cs arbitrary: i) simp_all

lemma array_splice_takeWhile:
  "array_splice (length (takeWhile P xs)) x xs = takeWhile P xs @ x # dropWhile P xs"
proof -
  have "take (length (takeWhile P xs)) xs = takeWhile P xs"
    by (metis append_eq_conv_conj takeWhile_dropWhile_id)
  moreover have "drop (length (takeWhile P xs)) xs = dropWhile P xs"
    by (metis append_eq_conv_conj takeWhile_dropWhile_id)
  ultimately show ?thesis by (simp add: array_splice_def)
qed

lemma characters_remoteInsert:
  "characters (remoteInsert this (Insert p ch t vc)) =
     (if list_ex (\<lambda>c. ch_id c = ch_id ch) (characters this) then characters this
      else takeWhile (\<lambda>c. compareCharacters c ch < 0) (characters this) @ ch #
           dropWhile (\<lambda>c. compareCharacters c ch < 0) (characters this))"
  using remoteInsert_loop_takeWhile [of "characters this" ch 0]
  by (simp add: Let_def array_splice_takeWhile)

lemma siteId_remoteInsert: "siteId (remoteInsert this (Insert p ch t vc)) = siteId this"
  by (simp add: Let_def)

lemma findIndex_Some:
  "findIndex P xs = Some i \<Longrightarrow> i < length xs \<and> P (xs ! i) \<and> (\<forall>j<i. \<not> P (xs ! j))"
proof (induction xs arbitrary: i)
  case Nil
  then show ?case by simp
next
  case (Cons x xs)
  show ?case
  proof (cases "P x")
    case True
    with Cons.prems show ?thesis by simp
  next
    case False
    with Cons.prems obtain k where k: "findIndex P xs = Some k" "i = Suc k"
      by (auto split: option.splits)
    from Cons.IH [OF k(1)] False k(2) show ?thesis
      by (auto simp: nth_Cons split: nat.splits)
  qed
qed

lemma findIndex_None: "findIndex P xs = None \<longleftrightarrow> \<not> list_ex P xs"
  by (induction xs) (auto split: option.splits)

lemma findIndex_append_first:
  "\<not> list_ex P xs \<Longrightarrow> P y \<Longrightarrow> findIndex P (xs @ y # ys) = Some (length xs)"
  by (induction xs) auto

lemma characters_remoteDelete:
  "characters (remoteDelete this (Delete p i t vc)) =
     (case findIndex (\<lambda>c. ch_id c = i) (characters this) of
        Some k \<Rightarrow> (characters this)[k := (characters this ! k)\<lparr>visible := False\<rparr>]
      | None \<Rightarrow> characters this)"
  by (simp add: Let_def split: option.splits)

lemma siteId_remoteDelete: "siteId (remoteDelete this (Delete p i t vc)) = siteId this"
  by (simp add: Let_def split: option.splits)

lemma siteId_applyOperation: "siteId (applyOperation c op) = siteId c"
  by (cases op) (simp_all only: applyOperation.simps siteId_remoteInsert siteId_remoteDelete)

section \<open>Duplicate delivery\<close>

lemma cleanupReceived_keeps_new:
  assumes "m \<notin> set received"
  shows "m \<in> set (cleanupReceived (Set_add m received))"
proof (cases "length (received @ [m]) > 1000")
  case True
  then have "take 500 (received @ [m]) = take 500 received" by simp
  then have "m \<notin> set (take 500 (received @ [m]))"
    using assms by (auto dest: in_set_takeD)
  with assms True show ?thesis by (simp add: cleanupReceived_def Set_add_def Let_def)
next
  case False
  with assms show ?thesis by (simp add: cleanupReceived_def Set_add_def)
qed

lemma handleMessage_siteId: "siteId (crdt (handleMessage s m)) = siteId (crdt s)"
  by (simp add: handleMessage_def Let_def sendAck_def siteId_applyOperation
      split: payload.splits)

lemma handleMessage_records_id:
  "msg_siteId m \<noteq> siteId (crdt s) \<Longrightarrow> msg_messageId m \<in> set (receivedOperations (handleMessage s m))"
  by (simp add: handleMessage_def Let_def sendAck_def cleanupReceived_keeps_new
      split: payload.splits)

lemma handleMessage_twice: "handleMessage (handleMessage s m) m = handleMessage s m"
proof (cases "msg_siteId m = siteId (crdt s)")
  case True
  then show ?thesis by (simp add: handleMessage_def)
next
  case False
  then have "msg_messageId m \<in> set (receivedOperations (handleMessage s m))"
    by (rule handleMessage_records_id)
  then show ?thesis
    by (subst handleMessage_def) (simp add: handleMessage_siteId)
qed

lemma remoteInsert_exists_after:
  "list_ex (\<lambda>c. ch_id c = ch_id ch) (characters (remoteInsert this (Insert p ch t vc)))"
  by (simp add: characters_remoteInsert list_ex_iff del: remoteInsert.simps)

text \<open>
  Claim C7. Duplicate delivery has no observable effect on the Document: handling a
  message a second time through \<^verbatim>\<open>handleMessage\<close>, or applying a remote Insert a second time
  through \<^verbatim>\<open>remoteInsert\<close>, leaves the character sequence as the first application left it.
\<close>

theorem duplicate_delivery_no_effect:
  "characters (crdt (handleMessage (handleMessage s m) m)) = characters (crdt (handleMessage s m)) \<and>
   characters (remoteInsert (remoteInsert this (Insert p ch t vc)) (Insert p ch t vc)) =
     characters (remoteInsert this (Insert p ch t vc))"
  using remoteInsert_exists_after [of ch this p t vc]
  by (simp add: handleMessage_twice characters_remoteInsert [of "remoteInsert this (Insert p ch t vc)"]
      del: remoteInsert.simps)

theorem duplicate_delivery_no_effect_witness:
  "characters (remoteInsert
      (remoteInsert (CRDT_new ''b'') (Insert 0 (CRDTCharacter_new ''x'' ''a-0'' ''a'' [(''a'', 1)]) 1 [(''a'', 1)]))
      (Insert 0 (CRDTCharacter_new ''x'' ''a-0'' ''a'' [(''a'', 1)]) 1 [(''a'', 1)])) =
   [CRDTCharacter_new ''x'' ''a-0'' ''a'' [(''a'', 1)]]"
  using duplicate_delivery_no_effect [of "SyncEngine_new (CRDT_new ''b'')"
      "\<lparr>msg_siteId = ''a'', msg_messageId = Some ''m1'', msg_targetId = ''broadcast'',
        msg_payload = AckMsg None\<rparr>" "CRDT_new ''b''"
      0 "CRDTCharacter_new ''x'' ''a-0'' ''a'' [(''a'', 1)]" 1 "[(''a'', 1)]"]
  by (simp add: characters_remoteInsert CRDT_new_def array_splice_def del: remoteInsert.simps)

section \<open>Sortedness under the operations\<close>

lemma exchange_operations:
  "insert_x = Insert 0 (CRDTCharacter_new ''x'' ''a-0'' ''a'' [(''a'', 1)]) 1 [(''a'', 1)] \<and>
   insert_y = Insert 1 (CRDTCharacter_new ''y'' ''a-1'' ''a'' [(''a'', 2)]) 2 [(''a'', 2)] \<and>
   snd (localDelete replica_a2 0) = Some delete_x"
  by code_simp

lemma isSorted_update_visible:
  "isSorted cs \<Longrightarrow> i < length cs \<Longrightarrow> isSorted (cs[i := (cs ! i)\<lparr>visible := b\<rparr>])"
  unfolding isSorted_def sorted_wrt_iff_nth_less
  by (auto simp: nth_list_update)

lemma isSorted_insert:
  assumes sorted: "isSorted cs"
    and fresh: "\<not> list_ex (\<lambda>c. ch_id c = ch_id ch) cs"
  shows "isSorted (takeWhile (\<lambda>c. compareCharacters c ch < 0) cs @ ch #
                   dropWhile (\<lambda>c. compareCharacters c ch < 0) cs)"
proof -
  let ?P = "\<lambda>c. compareCharacters c ch < 0"
  let ?R = "\<lambda>c1 c2. compareCharacters c1 c2 < 0"
  let ?tw = "takeWhile ?P cs" and ?dw = "dropWhile ?P cs"
  from sorted have "sorted_wrt ?R (?tw @ ?dw)" by (simp add: isSorted_def)
  then have tw: "sorted_wrt ?R ?tw" and dw: "sorted_wrt ?R ?dw"
    and cross: "\<forall>x\<in>set ?tw. \<forall>y\<in>set ?dw. ?R x y"
    unfolding sorted_wrt_append by blast+
  have below: "\<forall>x\<in>set ?tw. ?R x ch" by (auto dest: set_takeWhileD)
  have above: "?R ch y" if y: "y \<in> set ?dw" for y
  proof -
    from y have ne: "?dw \<noteq> []" by (cases ?dw) simp_all
    then have hd: "\<not> ?P (hd ?dw)" by (metis hd_dropWhile dropWhile_eq_Nil_conv)
    have "y \<in> set cs" using y by (auto dest: set_dropWhileD)
    with fresh have idy: "ch_id y \<noteq> ch_id ch" by (auto simp: list_ex_iff)
    have "\<not> ?P y"
    proof (cases "y = hd ?dw")
      case True
      with hd show ?thesis by simp
    next
      case False
      with y ne have "y \<in> set (tl ?dw)" by (cases ?dw) auto
      with dw ne have "?R (hd ?dw) y" by (cases ?dw) auto
      with hd show ?thesis using compareCharacters_trans by blast
    qed
    from this idy show ?thesis by (rule compareCharacters_total)
  qed
  have "sorted_wrt ?R (ch # ?dw)" using dw above by simp
  moreover have "\<forall>x\<in>set ?tw. \<forall>y\<in>set (ch # ?dw). ?R x y"
  proof (intro ballI)
    fix x y
    assume x: "x \<in> set ?tw" and "y \<in> set (ch # ?dw)"
    then consider "y = ch" | "y \<in> set ?dw" by (cases "y = ch") simp_all
    then show "?R x y" using cross below x by cases blast+
  qed
  ultimately have "sorted_wrt ?R (?tw @ ch # ?dw)"
    using tw by (simp only: sorted_wrt_append) 
  then show ?thesis by (simp only: isSorted_def)
qed

lemma isSorted_remoteInsert:
  "isSorted (characters this) \<Longrightarrow> isSorted (characters (remoteInsert this (Insert p ch t vc)))"
  by (simp add: characters_remoteInsert isSorted_insert del: remoteInsert.simps)

lemma isSorted_remoteDelete:
  "isSorted (characters this) \<Longrightarrow> isSorted (characters (remoteDelete this (Delete p i t vc)))"
  by (auto simp: characters_remoteDelete isSorted_update_visible
      simp del: remoteDelete.simps split: option.splits dest: findIndex_Some)

lemma characters_localDelete:
  "characters (fst (localDelete this position)) = characters this \<or>
   (getVisiblePosition this position < length (characters this) \<and>
    characters (fst (localDelete this position)) =
      (characters this)[getVisiblePosition this position :=
         (characters this ! getVisiblePosition this position)\<lparr>visible := False\<rparr>])"
  by (simp add: localDelete_def Let_def getVisiblePosition_def split: prod.splits)

lemma isSorted_localDelete:
  "isSorted (characters this) \<Longrightarrow> isSorted (characters (fst (localDelete this position)))"
  using characters_localDelete [of this position] by (auto simp: isSorted_update_visible)

lemma isSorted_slice_last: "isSorted cs \<Longrightarrow> isSorted (slice_last k cs)"
  by (simp add: isSorted_def slice_last_def)

text \<open>
  Claim C2, as the code has it. The remote operations and \<^verbatim>\<open>localDelete\<close> keep the sequence
  sorted by the order of \<^verbatim>\<open>compareCharacters\<close>. \<^verbatim>\<open>localInsert\<close> puts the new record at the
  internal index of the requested visible position, whatever the order says, and
  \<^verbatim>\<open>garbageCollect\<close> returns the visible records followed by the retained tombstones, each
  of the two groups sorted in itself.
\<close>

theorem sortedness_preserved:
  assumes "isSorted (characters this)"
  shows "isSorted (characters (remoteInsert this (Insert p ch t vc))) \<and>
         isSorted (characters (remoteDelete this (Delete p' i t' vc'))) \<and>
         isSorted (characters (fst (localDelete this position))) \<and>
         characters (fst (localInsert this position v)) =
           array_splice (getVisiblePosition this position)
             (op_char (snd (localInsert this position v))) (characters this) \<and>
         characters (garbageCollect this keepRecent) =
           filter visible (characters this) @
           slice_last keepRecent (filter (\<lambda>c. \<not> visible c) (characters this)) \<and>
         isSorted (filter visible (characters this)) \<and>
         isSorted (slice_last keepRecent (filter (\<lambda>c. \<not> visible c) (characters this)))"
proof -
  have "isSorted (filter visible (characters this))"
    and "isSorted (filter (\<lambda>c. \<not> visible c) (characters this))"
    using assms by (simp_all add: isSorted_def sorted_wrt_filter)
  then show ?thesis
    using assms isSorted_remoteInsert [of this p ch t vc]
      isSorted_remoteDelete [of this p' i t' vc']
      isSorted_localDelete [of this position] isSorted_slice_last
    by (simp add: localInsert_unfold Let_def garbageCollect_def
        del: remoteInsert.simps remoteDelete.simps)
qed

theorem sortedness_preserved_witness:
  "isSorted (characters replica_a2) \<and>
   isSorted (characters (remoteInsert replica_a2
      (Insert 0 (CRDTCharacter_new ''z'' ''b-0'' ''b'' [(''b'', 1)]) 1 [(''b'', 1)]))) \<and>
   isSorted (characters (remoteDelete replica_a2 delete_x))"
proof -
  have s: "isSorted (characters replica_a2)" by code_simp
  show ?thesis
    using s sortedness_preserved [OF s, where p = 0 and
        ch = "CRDTCharacter_new ''z'' ''b-0'' ''b'' [(''b'', 1)]" and t = 1 and
        vc = "[(''b'', 1)]" and p' = 0 and i = "''a-0''" and t' = 3 and vc' = "[(''a'', 3)]"]
    by (simp add: delete_x_def del: remoteInsert.simps remoteDelete.simps)
qed

text \<open>
  The invariant is lost by \<^verbatim>\<open>localInsert\<close> and by \<^verbatim>\<open>garbageCollect\<close>: replica \<^verbatim>\<open>a\<close>, holding
  \<^verbatim>\<open>x\<close>, inserts \<^verbatim>\<open>y\<close> at position 0 in front of it, although the clock of \<^verbatim>\<open>y\<close> is the later
  one; and after \<^verbatim>\<open>x\<close>, \<^verbatim>\<open>y\<close> and the deletion of \<^verbatim>\<open>x\<close>, the collection moves the tombstone of
  \<^verbatim>\<open>x\<close> behind \<^verbatim>\<open>y\<close>.
\<close>

theorem sortedness_localInsert_garbageCollect_counterexample:
  "isSorted (characters replica_a1) \<and>
   \<not> isSorted (characters (fst (localInsert replica_a1 0 ''y''))) \<and>
   isSorted (characters replica_a3) \<and>
   \<not> isSorted (characters (garbageCollect replica_a3 1000))"
  by code_simp

section \<open>A Delete that arrives before its Insert\<close>

lemma clock_get_update:
  "clock_get (AList.update k v c) s = (if s = k then v else clock_get c s)"
  by (simp add: clock_get_def update_conv')

lemma clock_get_update_site:
  "clock_get (update_site other k c) s =
     (if s = k then max (clock_get c s) (clock_get other s) else clock_get c s)"
  by (simp add: update_site_def clock_get_update)

lemma clock_get_fold_update_site:
  "clock_get (fold (update_site other) ks c) s =
     (if s \<in> set ks then max (clock_get c s) (clock_get other s) else clock_get c s)"
  by (induction ks arbitrary: c) (auto simp: clock_get_update_site)

lemma clock_get_merge:
  "clock_get (vc_clock (update this other)) s =
     max (clock_get (vc_clock this) s) (clock_get other s)"
  by (simp add: update_def clock_get_fold_update_site clock_get_notin)


lemma remoteDelete_unknown_state:
  "\<not> list_ex (\<lambda>c. ch_id c = i) (characters this) \<Longrightarrow>
   remoteDelete this (Delete p i t vc) = this\<lparr>vectorClock := update (vectorClock this) vc\<rparr>"
  by (simp add: Let_def findIndex_None [symmetric] del: findIndex_None)

text \<open>
  Claim C5, as the code has it. When \<^verbatim>\<open>remoteDelete\<close> finds no record with the target id,
  it merges the operation's clock into the replica's clock, every component becoming the
  maximum of the two, and changes nothing else: the character sequence stays as it is and
  the Delete is dropped, not kept for later. For an
  Insert and the Delete of its record, on a Document that does not hold the record yet:
  Delete then Insert leaves the record in its place with the visible flag the Insert
  carries; Insert then Delete leaves it in the same place as a tombstone.
\<close>

theorem remoteDelete_unknown_target_dropped:
  assumes "\<not> list_ex (\<lambda>c. ch_id c = ch_id ch) (characters this)"
  shows "remoteDelete this (Delete p (ch_id ch) t vc) =
           this\<lparr>vectorClock := update (vectorClock this) vc\<rparr> \<and>
         (\<forall>s. clock_get (vc_clock (vectorClock (remoteDelete this (Delete p (ch_id ch) t vc)))) s =
              max (clock_get (vc_clock (vectorClock this)) s) (clock_get vc s)) \<and>
         characters (remoteDelete this (Delete p (ch_id ch) t vc)) = characters this \<and>
         characters (remoteInsert (remoteDelete this (Delete p (ch_id ch) t vc))
                       (Insert p' ch t' vc')) =
           takeWhile (\<lambda>c. compareCharacters c ch < 0) (characters this) @ ch #
           dropWhile (\<lambda>c. compareCharacters c ch < 0) (characters this) \<and>
         characters (remoteDelete (remoteInsert this (Insert p' ch t' vc'))
                       (Delete p (ch_id ch) t vc)) =
           takeWhile (\<lambda>c. compareCharacters c ch < 0) (characters this) @
           ch\<lparr>visible := False\<rparr> #
           dropWhile (\<lambda>c. compareCharacters c ch < 0) (characters this)"
proof -
  let ?P = "\<lambda>c. compareCharacters c ch < 0"
  let ?D = "Delete p (ch_id ch) t vc" and ?I = "Insert p' ch t' vc'"
  from assms have none: "findIndex (\<lambda>c. ch_id c = ch_id ch) (characters this) = None"
    by (simp add: findIndex_None)
  then have del: "characters (remoteDelete this ?D) = characters this"
    by (simp add: characters_remoteDelete del: remoteDelete.simps)
  with assms have delins: "characters (remoteInsert (remoteDelete this ?D) ?I) =
      takeWhile ?P (characters this) @ ch # dropWhile ?P (characters this)"
    by (simp add: characters_remoteInsert del: remoteInsert.simps remoteDelete.simps)
  from assms have ins: "characters (remoteInsert this ?I) =
      takeWhile ?P (characters this) @ ch # dropWhile ?P (characters this)"
    by (simp add: characters_remoteInsert del: remoteInsert.simps)
  from assms have "\<not> list_ex (\<lambda>c. ch_id c = ch_id ch) (takeWhile ?P (characters this))"
    by (auto simp: list_ex_iff dest: set_takeWhileD)
  then have "findIndex (\<lambda>c. ch_id c = ch_id ch)
      (takeWhile ?P (characters this) @ ch # dropWhile ?P (characters this)) =
      Some (length (takeWhile ?P (characters this)))"
    by (simp add: findIndex_append_first)
  with ins have insdel: "characters (remoteDelete (remoteInsert this ?I) ?D) =
      takeWhile ?P (characters this) @ ch\<lparr>visible := False\<rparr> # dropWhile ?P (characters this)"
    by (simp add: characters_remoteDelete del: remoteInsert.simps remoteDelete.simps)
  from assms have state: "remoteDelete this ?D = this\<lparr>vectorClock := update (vectorClock this) vc\<rparr>"
    by (rule remoteDelete_unknown_state)
  then have merge: "\<forall>s. clock_get (vc_clock (vectorClock (remoteDelete this ?D))) s =
      max (clock_get (vc_clock (vectorClock this)) s) (clock_get vc s)"
    by (simp add: clock_get_merge del: remoteDelete.simps)
  from state merge del delins insdel show ?thesis by blast
qed

theorem remoteDelete_unknown_target_dropped_witness:
  "clock_get (vc_clock (vectorClock (remoteDelete (CRDT_new ''b'') delete_x))) ''a'' = 3 \<and>
   characters (remoteDelete (CRDT_new ''b'') delete_x) = [] \<and>
   characters (remoteInsert (remoteDelete (CRDT_new ''b'') delete_x) insert_x) =
     [CRDTCharacter_new ''x'' ''a-0'' ''a'' [(''a'', 1)]] \<and>
   characters (remoteDelete (remoteInsert (CRDT_new ''b'') insert_x) delete_x) =
     [(CRDTCharacter_new ''x'' ''a-0'' ''a'' [(''a'', 1)])\<lparr>visible := False\<rparr>]"
proof -
  have fresh: "\<not> list_ex (\<lambda>c. ch_id c = ch_id (CRDTCharacter_new ''x'' ''a-0'' ''a'' [(''a'', 1)]))
      (characters (CRDT_new ''b''))"
    by (simp add: CRDT_new_def)
  have id: "ch_id (CRDTCharacter_new ''x'' ''a-0'' ''a'' [(''a'', 1)]) = ''a-0''"
    by (simp add: CRDTCharacter_new_def)
  have e: "characters (CRDT_new ''b'') = []" by (simp add: CRDT_new_def)
  note t = remoteDelete_unknown_target_dropped
    [OF fresh, of 0 3 "[(''a'', 3)]" 0 1 "[(''a'', 1)]"]
  have m: "clock_get (vc_clock (vectorClock (remoteDelete (CRDT_new ''b'') delete_x))) ''a'' = 3"
    using t [THEN conjunct2, THEN conjunct1, rule_format, of "''a''"]
    unfolding id delete_x_def
    by (simp add: CRDT_new_def VectorClock_new_def clock_get_def del: remoteDelete.simps)
  have c: "characters (remoteDelete (CRDT_new ''b'') delete_x) = [] \<and>
      characters (remoteInsert (remoteDelete (CRDT_new ''b'') delete_x) insert_x) =
        [CRDTCharacter_new ''x'' ''a-0'' ''a'' [(''a'', 1)]] \<and>
      characters (remoteDelete (remoteInsert (CRDT_new ''b'') insert_x) delete_x) =
        [(CRDTCharacter_new ''x'' ''a-0'' ''a'' [(''a'', 1)])\<lparr>visible := False\<rparr>]"
    using t [THEN conjunct2, THEN conjunct2]
    unfolding id e delete_x_def exchange_operations [THEN conjunct1]
    by (simp del: remoteInsert.simps remoteDelete.simps)
  from m c show ?thesis by (rule conjI)
qed

text \<open>
  On a fresh replica the two orders of an Insert and its Delete end in different states:
  the record is visible after Delete then Insert, and a tombstone after Insert then Delete.
\<close>

theorem delete_before_insert_counterexample:
  "characters (CRDT_new ''b'') = [] \<and>
   ch_id (op_char insert_x) = op_charId delete_x \<and>
   characters (remoteInsert (remoteDelete (CRDT_new ''b'') delete_x) insert_x) \<noteq>
   characters (remoteDelete (remoteInsert (CRDT_new ''b'') insert_x) delete_x) \<and>
   getText (remoteInsert (remoteDelete (CRDT_new ''b'') delete_x) insert_x) = ''x'' \<and>
   getText (remoteDelete (remoteInsert (CRDT_new ''b'') insert_x) delete_x) = ''''"
  by code_simp

section \<open>Inbound operation messages\<close>

lemma compareTo_range:
  "compareTo a b = None \<or> compareTo a b = Some (- 1) \<or> compareTo a b = Some 0 \<or>
   compareTo a b = Some 1"
  by (simp add: compareTo_def Let_def)

text \<open>
  Claim C4, as the code has it. An inbound operation message from another site whose id
  is not in the dedup set is always recorded there. The operation is applied, the callback
  invoked and the Ack (with the message id as \<^verbatim>\<open>ackId\<close>, addressed to the origin site)
  emitted exactly when the local clock is before or concurrent to the operation's clock;
  when the local clock is equal to it or after it, the replica, the callback log and the
  outbound messages stay as they were.
\<close>

theorem handleMessage_operation_gate:
  assumes "msg_siteId m \<noteq> siteId (crdt s)"
    and "msg_messageId m \<notin> set (receivedOperations s)"
    and "msg_payload m = OperationMsg op"
  shows "(compareTo (vectorClock (crdt s)) (op_vectorClock op) = None \<or>
          compareTo (vectorClock (crdt s)) (op_vectorClock op) = Some (- 1) \<longrightarrow>
            crdt (handleMessage s m) = applyOperation (crdt s) op \<and>
            onRemoteOperation_calls (handleMessage s m) = onRemoteOperation_calls s @ [op] \<and>
            broadcast (handleMessage s m) = broadcast s @
              [\<lparr>msg_siteId = siteId (crdt s), msg_messageId = None,
                msg_targetId = msg_siteId m, msg_payload = AckMsg (msg_messageId m)\<rparr>]) \<and>
         (compareTo (vectorClock (crdt s)) (op_vectorClock op) = Some 0 \<or>
          compareTo (vectorClock (crdt s)) (op_vectorClock op) = Some 1 \<longrightarrow>
            crdt (handleMessage s m) = crdt s \<and>
            onRemoteOperation_calls (handleMessage s m) = onRemoteOperation_calls s \<and>
            broadcast (handleMessage s m) = broadcast s) \<and>
         msg_messageId m \<in> set (receivedOperations (handleMessage s m))"
proof -
  have rec: "msg_messageId m \<in> set (receivedOperations (handleMessage s m))"
    using assms(1) by (rule handleMessage_records_id)
  have app: "crdt (handleMessage s m) = applyOperation (crdt s) op \<and>
      onRemoteOperation_calls (handleMessage s m) = onRemoteOperation_calls s @ [op] \<and>
      broadcast (handleMessage s m) = broadcast s @
        [\<lparr>msg_siteId = siteId (crdt s), msg_messageId = None,
          msg_targetId = msg_siteId m, msg_payload = AckMsg (msg_messageId m)\<rparr>]"
    if "compareTo (vectorClock (crdt s)) (op_vectorClock op) = None \<or>
        compareTo (vectorClock (crdt s)) (op_vectorClock op) = Some (- 1)"
    using that assms
    by (auto simp: handleMessage_def Let_def sendAck_def siteId_applyOperation)
  have drop: "crdt (handleMessage s m) = crdt s \<and>
      onRemoteOperation_calls (handleMessage s m) = onRemoteOperation_calls s \<and>
      broadcast (handleMessage s m) = broadcast s"
    if "compareTo (vectorClock (crdt s)) (op_vectorClock op) = Some 0 \<or>
        compareTo (vectorClock (crdt s)) (op_vectorClock op) = Some 1"
    using that assms
    by (auto simp: handleMessage_def Let_def)
  from rec app drop show ?thesis by blast
qed

theorem handleMessage_operation_gate_witness:
  "compareTo (vectorClock (crdt (SyncEngine_new (CRDT_new ''b'')))) (op_vectorClock insert_x)
     = Some (- 1) \<and>
   crdt (handleMessage (SyncEngine_new (CRDT_new ''b'')) message_x) =
     applyOperation (crdt (SyncEngine_new (CRDT_new ''b''))) insert_x \<and>
   broadcast (handleMessage (SyncEngine_new (CRDT_new ''b'')) message_x) =
     [\<lparr>msg_siteId = ''b'', msg_messageId = None, msg_targetId = ''a'',
       msg_payload = AckMsg (Some ''a-1-0.1'')\<rparr>]"
proof -
  have h1: "msg_siteId message_x \<noteq> siteId (crdt (SyncEngine_new (CRDT_new ''b'')))"
    by (simp add: message_x_def SyncEngine_new_def CRDT_new_def)
  have h2: "msg_messageId message_x \<notin> set (receivedOperations (SyncEngine_new (CRDT_new ''b'')))"
    by (simp add: SyncEngine_new_def)
  have h3: "msg_payload message_x = OperationMsg insert_x"
    by (simp add: message_x_def)
  have c: "compareTo (vectorClock (crdt (SyncEngine_new (CRDT_new ''b''))))
      (op_vectorClock insert_x) = Some (- 1)"
    by code_simp
  show ?thesis
    using c handleMessage_operation_gate [OF h1 h2 h3]
    by (simp add: message_x_def SyncEngine_new_def CRDT_new_def)
qed

text \<open>
  Replica \<^verbatim>\<open>b\<close> has received the second insert of \<^verbatim>\<open>a\<close> and merged its clock. The message
  with the first insert then comes from another site with an id not seen before, but the
  local clock is after the operation's clock: nothing is applied, no callback is invoked
  and no Ack is emitted.
\<close>

theorem handleMessage_withholds_counterexample:
  "msg_siteId message_x \<noteq> siteId (crdt engine_b) \<and>
   msg_messageId message_x \<notin> set (receivedOperations engine_b) \<and>
   msg_payload message_x = OperationMsg insert_x \<and>
   compareTo (vectorClock (crdt engine_b)) (op_vectorClock insert_x) = Some 1 \<and>
   characters (crdt (handleMessage engine_b message_x)) = characters (crdt engine_b) \<and>
   characters (crdt (handleMessage engine_b message_x)) \<noteq>
     characters (applyOperation (crdt engine_b) insert_x) \<and>
   onRemoteOperation_calls (handleMessage engine_b message_x) = onRemoteOperation_calls engine_b \<and>
   broadcast (handleMessage engine_b message_x) = broadcast engine_b"
  by code_simp

section \<open>Cursor transformation\<close>

lemma clock_get_fold_assign:
  "clock_get (fold (\<lambda>key t. AList.update key (clock_get source key) t) ks target) s =
     (if s \<in> set ks then clock_get source s else clock_get target s)"
  by (induction ks arbitrary: target) (auto simp: clock_get_update)

lemma clock_get_Object_assign:
  "clock_get (Object_assign [(site, 0)] c) s = clock_get c s"
  by (auto simp: Object_assign_def clock_get_fold_assign clock_get_notin)
     (simp add: clock_get_def)

lemma compareTo_cong:
  "(\<And>s. clock_get (vc_clock a) s = clock_get (vc_clock a') s) \<Longrightarrow>
   compareTo a b = compareTo a' b"
  by (simp add: compareTo_flags)

lemma transformCursor_step_relation:
  "transformCursor_step site rc op transformed =
     (if compareTo \<lparr>vc_siteId = site, vc_clock = op_vectorClock op\<rparr> rc = Some 1
      then (case op of
              Insert p c t vc \<Rightarrow> if int p \<le> transformed then transformed + 1 else transformed
            | Delete p i t vc \<Rightarrow> if int p < transformed then transformed - 1 else transformed)
      else transformed)"
proof -
  have "compareTo ((VectorClock_new site)\<lparr>vc_clock :=
          Object_assign (vc_clock (VectorClock_new site)) (op_vectorClock op)\<rparr>) rc =
        compareTo \<lparr>vc_siteId = site, vc_clock = op_vectorClock op\<rparr> rc"
    by (rule compareTo_cong) (simp add: VectorClock_new_def clock_get_Object_assign)
  then show ?thesis by (simp add: transformCursor_step_def Let_def)
qed

lemma fold_filter_unchanged:
  "(\<And>x a. \<not> P x \<Longrightarrow> f x a = a) \<Longrightarrow> fold f (filter P xs) a = fold f xs a"
  by (induction xs arbitrary: a) simp_all

text \<open>
  Claim C8, as the code has it. The value returned by \<^verbatim>\<open>transformCursorPosition\<close> is never
  negative; it is not compared with the visible length. Only the operations of the local
  log whose clock is strictly after the reported clock take part: the result is the one for
  the log without all the others, and an operation whose clock is concurrent with the
  reported clock (or equal to it, or before it) leaves the position as it is.
\<close>

theorem transformCursorPosition_nonnegative_after_only:
  "0 \<le> transformCursorPosition this position rc \<and>
   transformCursorPosition this position rc =
     transformCursorPosition
       (this\<lparr>crdt := (crdt this)\<lparr>operationHistory :=
          filter (\<lambda>op. compareTo \<lparr>vc_siteId = siteId (crdt this),
                                   vc_clock = op_vectorClock op\<rparr> rc = Some 1)
            (operationHistory (crdt this))\<rparr>\<rparr>) position rc \<and>
   (compareTo \<lparr>vc_siteId = siteId (crdt this), vc_clock = op_vectorClock op\<rparr> rc \<noteq> Some 1 \<longrightarrow>
      transformCursor_step (siteId (crdt this)) rc op transformed = transformed)"
proof -
  let ?P = "\<lambda>op. compareTo \<lparr>vc_siteId = siteId (crdt this), vc_clock = op_vectorClock op\<rparr> rc
              = Some 1"
  have skip: "transformCursor_step (siteId (crdt this)) rc x a = a" if "\<not> ?P x" for x a
    using that by (simp add: transformCursor_step_relation)
  have "fold (transformCursor_step (siteId (crdt this)) rc)
          (filter ?P (operationHistory (crdt this))) position =
        fold (transformCursor_step (siteId (crdt this)) rc) (operationHistory (crdt this)) position"
    by (rule fold_filter_unchanged) (rule skip)
  then show ?thesis using skip by (simp add: transformCursorPosition_def)
qed

theorem transformCursorPosition_nonnegative_after_only_witness:
  "compareTo \<lparr>vc_siteId = siteId (crdt (SyncEngine_new replica_a2)),
              vc_clock = op_vectorClock insert_y\<rparr> [(''b'', 1)] = None \<and>
   transformCursor_step (siteId (crdt (SyncEngine_new replica_a2))) [(''b'', 1)] insert_y 5 = 5"
proof -
  have c: "compareTo \<lparr>vc_siteId = siteId (crdt (SyncEngine_new replica_a2)),
      vc_clock = op_vectorClock insert_y\<rparr> [(''b'', 1)] = None"
    by code_simp
  show ?thesis
    using c transformCursorPosition_nonnegative_after_only
      [where this = "SyncEngine_new replica_a2" and rc = "[(''b'', 1)]" and op = insert_y
        and transformed = 5 and position = 5]
    by simp
qed

text \<open>
  On an empty document with an empty log, a reported position 3 is returned as 3, above
  the visible length 0.
\<close>

theorem transformCursorPosition_exceeds_visible_length_counterexample:
  "transformCursorPosition (SyncEngine_new (CRDT_new ''a'')) 3 [(''b'', 1)] = 3 \<and>
   length (filter visible (characters (crdt (SyncEngine_new (CRDT_new ''a''))))) = 0 \<and>
   \<not> transformCursorPosition (SyncEngine_new (CRDT_new ''a'')) 3 [(''b'', 1)] \<le>
     int (length (filter visible (characters (crdt (SyncEngine_new (CRDT_new ''a''))))))"
  by code_simp

section \<open>Convergence\<close>

lemma insertedChars_snoc_Insert [simp]:
  "insertedChars (ops @ [Insert p ch t vc]) = insertedChars ops @ [ch]"
  by (simp add: insertedChars_def)

lemma insertedChars_snoc_Delete [simp]:
  "insertedChars (ops @ [Delete p i t vc]) = insertedChars ops"
  by (simp add: insertedChars_def)

lemma deletedIds_snoc_Insert [simp]:
  "deletedIds (ops @ [Insert p ch t vc]) = deletedIds ops"
  by (simp add: deletedIds_def)

lemma deletedIds_snoc_Delete [simp]:
  "deletedIds (ops @ [Delete p i t vc]) = deletedIds ops @ [i]"
  by (simp add: deletedIds_def)

lemma deletedIds_Cons_Insert [simp]:
  "deletedIds (Insert p ch t vc # ops) = deletedIds ops"
  by (simp add: deletedIds_def)

lemma deletedIds_Cons_Delete [simp]:
  "deletedIds (Delete p i t vc # ops) = i # deletedIds ops"
  by (simp add: deletedIds_def)

lemma insertedIds_Cons_Insert [simp]:
  "insertedIds (Insert p ch t vc # ops) = ch_id ch # insertedIds ops"
  by (simp add: insertedIds_def insertedChars_def)

lemma insertedIds_Cons_Delete [simp]:
  "insertedIds (Delete p i t vc # ops) = insertedIds ops"
  by (simp add: insertedIds_def insertedChars_def)

lemma deletesFollowInserts_prefix:
  "deletesFollowInserts T seen (xs @ ys) \<Longrightarrow> deletesFollowInserts T seen xs"
  by (induction T seen xs rule: deletesFollowInserts.induct) simp_all

lemma deletesFollowInserts_deleted:
  "deletesFollowInserts T seen ops \<Longrightarrow> i \<in> set (deletedIds ops) \<Longrightarrow> i \<in> set T \<Longrightarrow>
   i \<in> set seen \<union> set (insertedIds ops)"
proof (induction T seen ops rule: deletesFollowInserts.induct)
  case (1 allIds seen)
  then show ?case by (simp add: deletedIds_def)
next
  case (2 allIds seen p ch t vc ops)
  then show ?case by auto
next
  case (3 allIds seen p j t vc ops)
  then show ?case by auto
qed

lemma deletesFollowInserts_cong:
  "set T = set T' \<Longrightarrow> deletesFollowInserts T seen ops = deletesFollowInserts T' seen ops"
  by (induction T seen ops rule: deletesFollowInserts.induct) simp_all

lemma markDeleted_id [simp]: "ch_id (markDeleted D ch) = ch_id ch"
  by (simp add: markDeleted_def)

lemma update_by_id:
  assumes "distinct (map ch_id cs)" "k < length cs" "ch_id (cs ! k) = i"
  shows "cs[k := g (cs ! k)] = map (\<lambda>c. if ch_id c = i then g c else c) cs"
proof (rule nth_equalityI)
  show "length (cs[k := g (cs ! k)]) = length (map (\<lambda>c. if ch_id c = i then g c else c) cs)"
    by simp
next
  fix j assume "j < length (cs[k := g (cs ! k)])"
  then have j: "j < length cs" by simp
  show "cs[k := g (cs ! k)] ! j = map (\<lambda>c. if ch_id c = i then g c else c) cs ! j"
  proof (cases "j = k")
    case True
    with assms show ?thesis by simp
  next
    case False
    from nth_eq_iff_index_eq [OF assms(1), of j k] j assms(2) False
    have "ch_id (cs ! j) \<noteq> ch_id (cs ! k)" by simp
    with assms have "ch_id (cs ! j) \<noteq> i" by simp
    with False j show ?thesis by simp
  qed
qed

lemma isSorted_map_visible:
  "isSorted cs \<Longrightarrow> isSorted (map (\<lambda>c. if P c then c\<lparr>visible := False\<rparr> else c) cs)"
  by (simp add: isSorted_def sorted_wrt_map if_distrib [of "\<lambda>c. compareCharacters c _"]
      if_distrib [of "compareCharacters _"] cong: if_cong)

lemma applyOperations_snoc:
  "applyOperations c (ops @ [op]) = applyOperation (applyOperations c ops) op"
  by (simp add: applyOperations_def)

lemma applyOperations_invariant:
  assumes empty: "characters c0 = []"
  shows "distinct (insertedIds ops) \<Longrightarrow> deletesFollowInserts T [] ops \<Longrightarrow>
         set (insertedIds ops) \<subseteq> set T \<Longrightarrow>
         isSorted (characters (applyOperations c0 ops)) \<and>
         distinct (map ch_id (characters (applyOperations c0 ops))) \<and>
         set (characters (applyOperations c0 ops)) =
           markDeleted (set (deletedIds ops)) ` set (insertedChars ops)"
proof (induction ops rule: rev_induct)
  case Nil
  then show ?case
    by (simp add: applyOperations_def empty isSorted_def insertedChars_def)
next
  case (snoc op ops)
  let ?c = "applyOperations c0 ops"
  let ?cs = "characters ?c"
  let ?D = "set (deletedIds ops)"
  have pre: "deletesFollowInserts T [] ops"
    using snoc.prems(2) by (rule deletesFollowInserts_prefix)
  have dist: "distinct (insertedIds ops)"
    using snoc.prems(1) by (cases op) (simp_all add: insertedIds_def)
  have sub: "set (insertedIds ops) \<subseteq> set T"
    using snoc.prems(3) by (cases op) (auto simp: insertedIds_def)
  from snoc.IH [OF dist pre sub] have
    sorted: "isSorted ?cs" and ids: "distinct (map ch_id ?cs)" and
    elems: "set ?cs = markDeleted ?D ` set (insertedChars ops)"
    by simp_all
  have idset: "ch_id ` set ?cs = set (insertedIds ops)"
    unfolding elems by (simp add: insertedIds_def image_image)
  show ?case
  proof (cases op)
    case (Insert p ch t vc)
    have new: "ch_id ch \<notin> set (insertedIds ops)"
      using snoc.prems(1) Insert by (simp add: insertedIds_def)
    have inT: "ch_id ch \<in> set T"
      using snoc.prems(3) Insert by (simp add: insertedIds_def)
    have notdel: "ch_id ch \<notin> ?D"
      using deletesFollowInserts_deleted [OF pre _ inT] new by auto
    have nin: "ch_id ch \<notin> ch_id ` set ?cs" using new idset by simp
    have fresh: "\<not> list_ex (\<lambda>c. ch_id c = ch_id ch) ?cs"
    proof
      assume "list_ex (\<lambda>c. ch_id c = ch_id ch) ?cs"
      then obtain c where "c \<in> set ?cs" "ch_id c = ch_id ch"
        unfolding list_ex_iff by blast
      then have "ch_id ch \<in> ch_id ` set ?cs" by (metis imageI)
      with nin show False by simp
    qed
    let ?P = "\<lambda>c. compareCharacters c ch < 0"
    have chars: "characters (applyOperations c0 (ops @ [op])) =
        takeWhile ?P ?cs @ ch # dropWhile ?P ?cs"
      using fresh
      by (simp add: applyOperations_snoc Insert characters_remoteInsert del: remoteInsert.simps)
    have s: "isSorted (takeWhile ?P ?cs @ ch # dropWhile ?P ?cs)"
      using sorted fresh by (rule isSorted_insert)
    have "map ch_id ?cs = map ch_id (takeWhile ?P ?cs) @ map ch_id (dropWhile ?P ?cs)"
      by (metis map_append takeWhile_dropWhile_id)
    with ids have d0: "distinct (map ch_id (takeWhile ?P ?cs) @ map ch_id (dropWhile ?P ?cs))"
      by simp
    from nin have "ch_id ch \<notin> ch_id ` set (takeWhile ?P ?cs)"
      and "ch_id ch \<notin> ch_id ` set (dropWhile ?P ?cs)"
      by (auto dest: set_takeWhileD set_dropWhileD)
    with d0 have d: "distinct (map ch_id (takeWhile ?P ?cs @ ch # dropWhile ?P ?cs))"
      by auto
    have "set (takeWhile ?P ?cs @ ch # dropWhile ?P ?cs) = insert ch (set ?cs)"
    proof -
      have "set ?cs = set (takeWhile ?P ?cs) \<union> set (dropWhile ?P ?cs)"
        by (metis set_append takeWhile_dropWhile_id)
      then show ?thesis by auto
    qed
    also have "\<dots> = insert (markDeleted ?D ch) (markDeleted ?D ` set (insertedChars ops))"
      using notdel elems by (simp add: markDeleted_def)
    finally have e: "set (takeWhile ?P ?cs @ ch # dropWhile ?P ?cs) =
        markDeleted (set (deletedIds (ops @ [op]))) ` set (insertedChars (ops @ [op]))"
      by (simp add: Insert)
    from s d e show ?thesis unfolding chars by blast
  next
    case (Delete p i t vc)
    let ?f = "\<lambda>c. if ch_id c = i then c\<lparr>visible := False\<rparr> else c"
    have chars: "characters (applyOperations c0 (ops @ [op])) = map ?f ?cs"
    proof (cases "findIndex (\<lambda>c. ch_id c = i) ?cs")
      case None
      then have "\<forall>c\<in>set ?cs. ch_id c \<noteq> i" by (simp add: findIndex_None list_ex_iff)
      then have "map ?f ?cs = ?cs" by (simp add: map_idI)
      with None show ?thesis
        by (simp add: applyOperations_snoc Delete characters_remoteDelete
            del: remoteDelete.simps)
    next
      case (Some k)
      from findIndex_Some [OF Some] have k: "k < length ?cs" "ch_id (?cs ! k) = i" by simp_all
      from update_by_id [OF ids k, of "\<lambda>c. c\<lparr>visible := False\<rparr>"] Some show ?thesis
        by (simp add: applyOperations_snoc Delete characters_remoteDelete
            del: remoteDelete.simps)
    qed
    have s: "isSorted (map ?f ?cs)" using sorted by (rule isSorted_map_visible)
    have idf: "ch_id \<circ> ?f = ch_id" by (rule ext) simp
    have "map ch_id (map ?f ?cs) = map ch_id ?cs" unfolding map_map idf by (rule refl)
    with ids have d: "distinct (map ch_id (map ?f ?cs))" by (simp only:)
    have fm: "?f \<circ> markDeleted ?D = markDeleted (insert i ?D)"
      by (rule ext) (simp add: markDeleted_def)
    have "?f ` markDeleted ?D ` set (insertedChars ops) =
        markDeleted (insert i ?D) ` set (insertedChars ops)"
      unfolding image_comp fm by (rule refl)
    then have "set (map ?f ?cs) = markDeleted (insert i ?D) ` set (insertedChars ops)"
      unfolding set_map elems by (rule trans) (rule refl)
    moreover have "set (deletedIds (ops @ [op])) = insert i ?D"
      and "insertedChars (ops @ [op]) = insertedChars ops"
      by (simp_all add: Delete)
    ultimately have e: "set (map ?f ?cs) =
        markDeleted (set (deletedIds (ops @ [op]))) ` set (insertedChars (ops @ [op]))"
      by (simp only:)
    from s d e show ?thesis unfolding chars by blast
  qed
qed

lemma isSorted_unique:
  "isSorted xs \<Longrightarrow> isSorted ys \<Longrightarrow> set xs = set ys \<Longrightarrow> xs = ys"
proof (induction xs arbitrary: ys)
  case Nil
  then show ?case by simp
next
  case (Cons x xs)
  from Cons.prems(3) obtain y ys' where ys: "ys = y # ys'" by (cases ys) auto
  from Cons.prems(1) have x_min: "\<forall>z\<in>set xs. compareCharacters x z < 0" and sx: "isSorted xs"
    by (simp_all add: isSorted_def)
  from Cons.prems(2) ys have y_min: "\<forall>z\<in>set ys'. compareCharacters y z < 0" and sy: "isSorted ys'"
    by (simp_all add: isSorted_def)
  have irrefl: "\<not> compareCharacters z z < 0" for z
    using compareCharacters_asym by blast
  have xy: "x = y"
  proof (rule ccontr)
    assume ne: "x \<noteq> y"
    with Cons.prems(3) ys have "x \<in> set ys'" "y \<in> set xs" by auto
    with x_min y_min have "compareCharacters x y < 0" "compareCharacters y x < 0" by auto
    then show False using compareCharacters_asym by blast
  qed
  have "x \<notin> set xs" using x_min irrefl by blast
  moreover have "y \<notin> set ys'" using y_min irrefl by blast
  ultimately have "set xs = set ys'" using Cons.prems(3) ys xy by auto
  with Cons.IH [OF sx sy] xy ys show ?case by simp
qed

lemma insertedChars_set: "set xs = set ys \<Longrightarrow> set (insertedChars xs) = set (insertedChars ys)"
  by (simp add: insertedChars_def)

lemma deletedIds_set: "set xs = set ys \<Longrightarrow> set (deletedIds xs) = set (deletedIds ys)"
  by (simp add: deletedIds_def)

lemma insertedIds_mset: "mset xs = mset ys \<Longrightarrow> mset (insertedIds xs) = mset (insertedIds ys)"
  by (simp add: insertedIds_def insertedChars_def flip: mset_filter mset_map)
     (metis mset_filter mset_map)

text \<open>
  Claim C1, as the code has it. Take a finite set of insert and delete operations whose
  inserts carry pairwise distinct record ids, and two orderings of it in each of which every
  delete whose target some insert of the set creates comes after that insert. Applying the
  operations to two fresh replicas in these two orders (through \<^verbatim>\<open>remoteInsert\<close> and
  \<^verbatim>\<open>remoteDelete\<close>) gives the same character sequence, records, order and visible flags,
  and so the same visible text.
\<close>

theorem convergence_when_deletes_follow_inserts:
  assumes "mset xs = mset ys"
    and "distinct (insertedIds xs)"
    and "deletesFollowInserts (insertedIds xs) [] xs"
    and "deletesFollowInserts (insertedIds ys) [] ys"
  shows "characters (applyOperations (CRDT_new a) xs) =
         characters (applyOperations (CRDT_new b) ys) \<and>
         getText (applyOperations (CRDT_new a) xs) = getText (applyOperations (CRDT_new b) ys)"
proof -
  from assms(1) have sets: "set xs = set ys" by (rule mset_eq_setD)
  from assms(1) have im: "mset (insertedIds xs) = mset (insertedIds ys)"
    by (rule insertedIds_mset)
  with assms(2) have dy: "distinct (insertedIds ys)"
    by (metis mset_eq_imp_distinct_iff)
  have ea: "characters (CRDT_new a) = []" and eb: "characters (CRDT_new b) = []"
    by (simp_all add: CRDT_new_def)
  from applyOperations_invariant [OF ea assms(2) assms(3)] have
    a: "isSorted (characters (applyOperations (CRDT_new a) xs))"
       "set (characters (applyOperations (CRDT_new a) xs)) =
          markDeleted (set (deletedIds xs)) ` set (insertedChars xs)"
    by simp_all
  from applyOperations_invariant [OF eb dy assms(4)] have
    b: "isSorted (characters (applyOperations (CRDT_new b) ys))"
       "set (characters (applyOperations (CRDT_new b) ys)) =
          markDeleted (set (deletedIds ys)) ` set (insertedChars ys)"
    by simp_all
  from a(2) b(2) insertedChars_set [OF sets] deletedIds_set [OF sets] have
    "set (characters (applyOperations (CRDT_new a) xs)) =
     set (characters (applyOperations (CRDT_new b) ys))"
    by simp
  with a(1) b(1) have "characters (applyOperations (CRDT_new a) xs) =
      characters (applyOperations (CRDT_new b) ys)"
    by (rule isSorted_unique)
  then show ?thesis by (simp add: getText_def)
qed

theorem convergence_when_deletes_follow_inserts_witness:
  "characters (applyOperations (CRDT_new ''b'') [insert_x, insert_y, delete_x]) =
   characters (applyOperations (CRDT_new ''c'') [insert_y, insert_x, delete_x])"
proof -
  have m: "mset [insert_x, insert_y, delete_x] = mset [insert_y, insert_x, delete_x]"
    by simp
  have d: "distinct (insertedIds [insert_x, insert_y, delete_x])"
    by code_simp
  have f1: "deletesFollowInserts (insertedIds [insert_x, insert_y, delete_x]) []
      [insert_x, insert_y, delete_x]"
    by code_simp
  have f2: "deletesFollowInserts (insertedIds [insert_y, insert_x, delete_x]) []
      [insert_y, insert_x, delete_x]"
    by code_simp
  from convergence_when_deletes_follow_inserts [OF m d f1 f2] show ?thesis by blast
qed

text \<open>
  Without the condition on the deletes the two replicas differ: the set of the Insert of
  \<^verbatim>\<open>x\<close> and its Delete, applied in its two orders.
\<close>

theorem convergence_delete_first_counterexample:
  "characters (applyOperations (CRDT_new ''b'') [insert_x, delete_x]) \<noteq>
   characters (applyOperations (CRDT_new ''c'') [delete_x, insert_x]) \<and>
   getText (applyOperations (CRDT_new ''b'') [insert_x, delete_x]) = '''' \<and>
   getText (applyOperations (CRDT_new ''c'') [delete_x, insert_x]) = ''x''"
  by code_simp

section \<open>The order that compareCharacters implements\<close>




















text \<open>
  The last comparison of \<^verbatim>\<open>compareCharacters\<close> is one of id strings. On two hand-made records
  of one site with equal clocks and the counters 10 and 9 it puts \<^verbatim>\<open>s-10\<close> first. No run
  creates such a pair: by the theorem above, two records of one site with equal clocks are
  the same record.
\<close>

lemma compareCharacters_equal_clocks_id_strings:
  "compareCharacters
     (CRDTCharacter_new ''x'' ''s-10'' ''s'' [(''s'', 1)])
     (CRDTCharacter_new ''y'' ''s-9'' ''s'' [(''s'', 1)]) < 0"
  by code_simp

end
